theory Spec2Isabelle
  imports Main "HOL-Library.Sublist" "HOL-Library.AList"
begin

section \<open>JavaScript values\<close>

text \<open>
  The proxy of \<^verbatim>\<open>src/main.ts\<close> works on untyped data (\<^verbatim>\<open>any\<close>): the request body and
  every line of the upstream stream come out of \<^verbatim>\<open>JSON.parse\<close>. The embedding keeps them
  untyped. A value is one of the values \<^verbatim>\<open>JSON.parse\<close> returns, \<^verbatim>\<open>undefined\<close> (the result
  of reading a property that is not there), or \<^verbatim>\<open>NaN\<close> (the number a failed conversion
  yields).

  \<^item> Numbers are the integers (ids, timestamps, indices and token counts of the
    protocol, in the range where a double is exact) and \<^verbatim>\<open>NaN\<close>; a number with a fraction
    is outside the model.
  \<^item> A string is held as its UTF-8 encoding, one \<^typ>\<open>char\<close> per byte, so that the text
    decoder of the stream reducer hands its bytes on unchanged.
  \<^item> An object is the list of its own properties in insertion order; a property is
    read from the first entry with its name.
\<close>

datatype jv =
    JUndefined
  | JNull
  | JBool bool
  | JNum int
  | JNaN
  | JStr string
  | JArr "jv list"
  | JObj "(string \<times> jv) list"

datatype error = TypeError | SyntaxError | RangeError

text \<open>\<^verbatim>\<open>if (v)\<close>, \<^verbatim>\<open>!v\<close>, \<^verbatim>\<open>v && w\<close>, \<^verbatim>\<open>v || w\<close>: the truth value of a value.\<close>

fun truthy :: "jv \<Rightarrow> bool" where
  "truthy JUndefined = False"
| "truthy JNull = False"
| "truthy (JBool b) = b"
| "truthy (JNum n) = (n \<noteq> 0)"
| "truthy JNaN = False"
| "truthy (JStr s) = (s \<noteq> [])"
| "truthy (JArr xs) = True"
| "truthy (JObj ps) = True"

text \<open>\<^verbatim>\<open>v || w\<close> as a value.\<close>

definition or_else :: "jv \<Rightarrow> jv \<Rightarrow> jv" where
  "or_else v w = (if truthy v then v else w)"

text \<open>\<^verbatim>\<open>v === null || v === undefined\<close>: reading a property of such a value throws.\<close>

fun nullish :: "jv \<Rightarrow> bool" where
  "nullish JUndefined = True"
| "nullish JNull = True"
| "nullish _ = False"

text \<open>
  The number of UTF-16 code units of a string (its \<^verbatim>\<open>length\<close>), counted on the UTF-8
  bytes: a continuation byte adds nothing, the lead byte of a four-byte sequence adds
  two (a surrogate pair), every other byte one.
\<close>

definition utf16_units :: "char \<Rightarrow> nat" where
  "utf16_units c =
     (let b = (of_char c :: nat)
      in if b < 0x80 then 1 else if b < 0xC0 then 0 else if b < 0xF0 then 1 else 2)"

definition utf16_length :: "string \<Rightarrow> nat" where
  "utf16_length s = sum_list (map utf16_units s)"

text \<open>
  \<^verbatim>\<open>v.k\<close> for a value \<open>v\<close> that is neither \<^verbatim>\<open>null\<close> nor \<^verbatim>\<open>undefined\<close> (on those the
  read throws a \<^verbatim>\<open>TypeError\<close>, and the model tests \<open>nullish\<close> before it reads), and a name
  \<open>k\<close> that no prototype defines (the names the program reads are \<^verbatim>\<open>id\<close>, \<^verbatim>\<open>model\<close>,
  \<^verbatim>\<open>created\<close>, \<^verbatim>\<open>usage\<close>, \<^verbatim>\<open>choices\<close>, \<^verbatim>\<open>delta\<close>, \<^verbatim>\<open>content\<close>, \<^verbatim>\<open>tool_calls\<close>, \<^verbatim>\<open>index\<close>,
  \<^verbatim>\<open>type\<close>, \<^verbatim>\<open>function\<close>, \<^verbatim>\<open>name\<close>, \<^verbatim>\<open>arguments\<close>, \<^verbatim>\<open>finish_reason\<close>, \<^verbatim>\<open>role\<close>, \<^verbatim>\<open>text\<close>,
  \<^verbatim>\<open>stream\<close>, \<^verbatim>\<open>messages\<close>, \<^verbatim>\<open>error\<close>, \<^verbatim>\<open>message\<close>, and \<^verbatim>\<open>length\<close>, which arrays and strings
  own).
\<close>

fun get_prop :: "jv \<Rightarrow> string \<Rightarrow> jv" where
  "get_prop (JObj ps) k = (case map_of ps k of Some v \<Rightarrow> v | None \<Rightarrow> JUndefined)"
| "get_prop (JArr xs) k = (if k = ''length'' then JNum (int (length xs)) else JUndefined)"
| "get_prop (JStr s) k = (if k = ''length'' then JNum (int (utf16_length s)) else JUndefined)"
| "get_prop v k = JUndefined"

text \<open>\<^verbatim>\<open>typeof v\<close>, \<^verbatim>\<open>Array.isArray(v)\<close>, and the elements of an array.\<close>

fun typeof :: "jv \<Rightarrow> string" where
  "typeof JUndefined = ''undefined''"
| "typeof JNull = ''object''"
| "typeof (JBool b) = ''boolean''"
| "typeof (JNum n) = ''number''"
| "typeof JNaN = ''number''"
| "typeof (JStr s) = ''string''"
| "typeof (JArr xs) = ''object''"
| "typeof (JObj ps) = ''object''"

fun isArray :: "jv \<Rightarrow> bool" where
  "isArray (JArr xs) = True"
| "isArray v = False"

fun elements :: "jv \<Rightarrow> jv list" where
  "elements (JArr xs) = xs"
| "elements v = []"

subsection \<open>Decimal numerals\<close>

definition digit_char :: "nat \<Rightarrow> char" where
  "digit_char d = ''0123456789'' ! d"

fun show_nat :: "nat \<Rightarrow> string" where
  "show_nat n = (if n < 10 then [digit_char n] else show_nat (n div 10) @ [digit_char (n mod 10)])"

declare show_nat.simps [simp del]

definition show_int :: "int \<Rightarrow> string" where
  "show_int i = (if i < 0 then CHR ''-'' # show_nat (nat (- i)) else show_nat (nat i))"

subsection \<open>Strings\<close>

text \<open>
  The code points of a string: a lead byte with the continuation bytes after it.
  \<^verbatim>\<open>for (const c of s)\<close> and the spread of a string enumerate them.
\<close>

definition is_cont :: "char \<Rightarrow> bool" where
  "is_cont c = (0x80 \<le> (of_char c :: nat) \<and> (of_char c :: nat) < 0xC0)"

function code_points :: "string \<Rightarrow> string list" where
  "code_points [] = []"
| "code_points (c # cs) = (c # takeWhile is_cont cs) # code_points (dropWhile is_cont cs)"
  by pat_completeness auto
termination
  by (relation "measure length") (auto simp: length_dropWhile_le less_Suc_eq_le)

text \<open>
  \<^verbatim>\<open>String.prototype.trim\<close> removes the white space and line terminators of ECMAScript
  from both ends. Their UTF-8 encodings: TAB, LF, VT, FF, CR, SP, U+00A0, U+1680,
  U+2000 to U+200A, U+2028, U+2029, U+202F, U+205F, U+3000 and U+FEFF.
\<close>

definition ws_tokens :: "string list" where
  "ws_tokens =
     [[CHR 0x09], [CHR 0x0A], [CHR 0x0B], [CHR 0x0C], [CHR 0x0D], [CHR 0x20],
      [CHR 0xC2, CHR 0xA0],
      [CHR 0xE1, CHR 0x9A, CHR 0x80],
      [CHR 0xE2, CHR 0x80, CHR 0x80], [CHR 0xE2, CHR 0x80, CHR 0x81],
      [CHR 0xE2, CHR 0x80, CHR 0x82], [CHR 0xE2, CHR 0x80, CHR 0x83],
      [CHR 0xE2, CHR 0x80, CHR 0x84], [CHR 0xE2, CHR 0x80, CHR 0x85],
      [CHR 0xE2, CHR 0x80, CHR 0x86], [CHR 0xE2, CHR 0x80, CHR 0x87],
      [CHR 0xE2, CHR 0x80, CHR 0x88], [CHR 0xE2, CHR 0x80, CHR 0x89],
      [CHR 0xE2, CHR 0x80, CHR 0x8A],
      [CHR 0xE2, CHR 0x80, CHR 0xA8], [CHR 0xE2, CHR 0x80, CHR 0xA9],
      [CHR 0xE2, CHR 0x80, CHR 0xAF],
      [CHR 0xE2, CHR 0x81, CHR 0x9F],
      [CHR 0xE3, CHR 0x80, CHR 0x80],
      [CHR 0xEF, CHR 0xBB, CHR 0xBF]]"

text \<open>Remove the tokens \<open>ts\<close> from the front of a string for as long as one is there.\<close>

function strip_front :: "string list \<Rightarrow> string \<Rightarrow> string" where
  "strip_front ts s =
     (case find (\<lambda>t. t \<noteq> [] \<and> prefix t s) ts of
        None \<Rightarrow> s
      | Some t \<Rightarrow> strip_front ts (drop (length t) s))"
  by pat_completeness auto
termination
proof (relation "measure (\<lambda>(ts, s). length s)")
  show "wf (measure (\<lambda>(ts, s). length s))" by simp
next
  fix ts :: "string list" and s t :: string
  assume "find (\<lambda>t. t \<noteq> [] \<and> prefix t s) ts = Some t"
  then have "t \<noteq> []" and "prefix t s"
    by (auto simp: find_Some_iff)
  then have "s \<noteq> []" by auto
  with \<open>t \<noteq> []\<close> show "((ts, drop (length t) s), (ts, s)) \<in> measure (\<lambda>(ts, s). length s)"
    by simp
qed

declare strip_front.simps [simp del]

definition trimStart :: "string \<Rightarrow> string" where
  "trimStart s = strip_front ws_tokens s"

definition trimEnd :: "string \<Rightarrow> string" where
  "trimEnd s = rev (strip_front (map rev ws_tokens) (rev s))"

definition trim :: "string \<Rightarrow> string" where
  "trim s = trimEnd (trimStart s)"

text \<open>
  The method call \<^verbatim>\<open>v.trim()\<close>: only a string has the method. On any other value
  \<^verbatim>\<open>v.trim\<close> is \<^verbatim>\<open>undefined\<close> (or, on an object with a property of that name, a JSON
  value), and calling it throws a \<^verbatim>\<open>TypeError\<close>; so does reading it from \<^verbatim>\<open>null\<close>.
\<close>

fun call_trim :: "jv \<Rightarrow> error + string" where
  "call_trim (JStr s) = Inr (trim s)"
| "call_trim v = Inl TypeError"

text \<open>
  The spread \<^verbatim>\<open>{ ...v }\<close>: the own enumerable properties. An array and a string
  contribute their elements under their indices, any other primitive nothing.
\<close>

fun spread :: "jv \<Rightarrow> (string \<times> jv) list" where
  "spread (JObj ps) = ps"
| "spread (JArr xs) = zip (map show_nat [0..<length xs]) xs"
| "spread (JStr s) = zip (map show_nat [0..<length (code_points s)]) (map JStr (code_points s))"
| "spread v = []"


subsection \<open>Conversions\<close>

text \<open>
  \<^verbatim>\<open>ToString\<close>. An object of \<^verbatim>\<open>JSON.parse\<close> has no callable property, so its conversion
  reaches \<^verbatim>\<open>Object.prototype.toString\<close> unless a property of its own named \<^verbatim>\<open>toString\<close>
  hides it, and then no method yields a primitive: a \<^verbatim>\<open>TypeError\<close>. An array is joined
  with commas, \<^verbatim>\<open>null\<close> and \<^verbatim>\<open>undefined\<close> elements as the empty string.
\<close>

fun to_string :: "jv \<Rightarrow> error + string"
  and join_elems :: "jv list \<Rightarrow> error + string" where
  "to_string JUndefined = Inr ''undefined''"
| "to_string JNull = Inr ''null''"
| "to_string (JBool b) = Inr (if b then ''true'' else ''false'')"
| "to_string (JNum n) = Inr (show_int n)"
| "to_string JNaN = Inr ''NaN''"
| "to_string (JStr s) = Inr s"
| "to_string (JArr xs) = join_elems xs"
| "to_string (JObj ps) =
     (if map_of ps ''toString'' \<noteq> None then Inl TypeError else Inr ''[object Object]'')"
| "join_elems [] = Inr []"
| "join_elems (x # xs) =
     (case (if nullish x then Inr [] else to_string x) of
        Inl e \<Rightarrow> Inl e
      | Inr s \<Rightarrow>
          if xs = [] then Inr s
          else (case join_elems xs of
                  Inl e \<Rightarrow> Inl e
                | Inr r \<Rightarrow> Inr (s @ '','' @ r)))"

text \<open>\<^verbatim>\<open>ToPrimitive\<close>: an array or object becomes the string above.\<close>

definition to_primitive :: "jv \<Rightarrow> error + jv" where
  "to_primitive v =
     (case v of
        JArr xs \<Rightarrow> (case to_string v of Inl e \<Rightarrow> Inl e | Inr s \<Rightarrow> Inr (JStr s))
      | JObj ps \<Rightarrow> (case to_string v of Inl e \<Rightarrow> Inl e | Inr s \<Rightarrow> Inr (JStr s))
      | _ \<Rightarrow> Inr v)"

text \<open>
  The decimal integer a string of digits denotes, and \<^verbatim>\<open>ToNumber\<close> (\<open>None\<close> is \<^verbatim>\<open>NaN\<close>).
  Of the numeric strings the model reads the decimal integers, with a sign and white
  space around them; a string that denotes a fraction, or is written with an exponent
  or a radix prefix, names a number outside the model and is read as \<^verbatim>\<open>NaN\<close>.
\<close>

definition is_digit :: "char \<Rightarrow> bool" where
  "is_digit c = (48 \<le> (of_char c :: nat) \<and> (of_char c :: nat) \<le> 57)"

definition read_nat :: "string \<Rightarrow> nat option" where
  "read_nat s =
     (if s \<noteq> [] \<and> list_all is_digit s
      then Some (foldl (\<lambda>n c. 10 * n + (of_char c - 48)) 0 s)
      else None)"

definition string_to_number :: "string \<Rightarrow> int option" where
  "string_to_number s =
     (let t = trim s
      in if t = [] then Some 0
         else if hd t = CHR ''-'' then map_option (\<lambda>n. - int n) (read_nat (tl t))
         else if hd t = CHR ''+'' then map_option int (read_nat (tl t))
         else map_option int (read_nat t))"

definition to_number :: "jv \<Rightarrow> error + int option" where
  "to_number v =
     (case to_primitive v of
        Inl e \<Rightarrow> Inl e
      | Inr p \<Rightarrow>
          Inr (case p of
                 JNull \<Rightarrow> Some 0
               | JBool b \<Rightarrow> Some (if b then 1 else 0)
               | JNum n \<Rightarrow> Some n
               | JStr s \<Rightarrow> string_to_number s
               | _ \<Rightarrow> None))"

text \<open>\<^verbatim>\<open>v > 0\<close>: a comparison with \<^verbatim>\<open>NaN\<close> is false.\<close>

definition greater_zero :: "jv \<Rightarrow> error + bool" where
  "greater_zero v =
     (case to_number v of
        Inl e \<Rightarrow> Inl e
      | Inr None \<Rightarrow> Inr False
      | Inr (Some n) \<Rightarrow> Inr (0 < n))"

text \<open>
  \<^verbatim>\<open>l + r\<close>: both operands become primitives; if one is a string the result is the
  concatenation of their strings, otherwise the sum of their numbers.
\<close>

definition js_add :: "jv \<Rightarrow> jv \<Rightarrow> error + jv" where
  "js_add l r =
     (case to_primitive l of
        Inl e \<Rightarrow> Inl e
      | Inr lp \<Rightarrow>
          (case to_primitive r of
             Inl e \<Rightarrow> Inl e
           | Inr rp \<Rightarrow>
               if typeof lp = ''string'' \<or> typeof rp = ''string'' then
                 (case to_string lp of
                    Inl e \<Rightarrow> Inl e
                  | Inr ls \<Rightarrow>
                      (case to_string rp of
                         Inl e \<Rightarrow> Inl e
                       | Inr rs \<Rightarrow> Inr (JStr (ls @ rs))))
               else
                 (case to_number lp of
                    Inl e \<Rightarrow> Inl e
                  | Inr ln \<Rightarrow>
                      (case to_number rp of
                         Inl e \<Rightarrow> Inl e
                       | Inr rn \<Rightarrow>
                           Inr (case (ln, rn) of
                                  (Some a, Some b) \<Rightarrow> JNum (a + b)
                                | _ \<Rightarrow> JNaN)))))"

subsection \<open>Property keys, indexing and iteration\<close>

text \<open>
  \<^verbatim>\<open>a[v]\<close> converts \<open>v\<close> to a string. On an array the string is an index when it is the
  canonical decimal numeral of a number below \<open>2\<^sup>3\<^sup>2 - 1\<close>, and the name of an ordinary
  property otherwise.
\<close>

datatype pkey = Index nat | Name string

definition key_of_string :: "string \<Rightarrow> pkey" where
  "key_of_string s =
     (case read_nat s of
        None \<Rightarrow> Name s
      | Some n \<Rightarrow> if show_nat n = s \<and> int n < 4294967295 then Index n else Name s)"

definition to_key :: "jv \<Rightarrow> error + pkey" where
  "to_key v = (case to_string v of Inl e \<Rightarrow> Inl e | Inr s \<Rightarrow> Inr (key_of_string s))"

text \<open>
  \<^verbatim>\<open>v[n]\<close> for a value that is neither \<^verbatim>\<open>null\<close> nor \<^verbatim>\<open>undefined\<close>. (On a string the
  element is a code unit; the model gives the code point, which is the same below
  U+10000.)
\<close>

fun get_index :: "jv \<Rightarrow> nat \<Rightarrow> jv" where
  "get_index (JArr xs) n = (if n < length xs then xs ! n else JUndefined)"
| "get_index (JStr s) n =
     (if n < length (code_points s) then JStr (code_points s ! n) else JUndefined)"
| "get_index (JObj ps) n = get_prop (JObj ps) (show_nat n)"
| "get_index v n = JUndefined"

text \<open>
  \<^verbatim>\<open>for (const x of v)\<close>: arrays and strings are iterable; on any other value the loop
  throws a \<^verbatim>\<open>TypeError\<close>.
\<close>

fun iterate :: "jv \<Rightarrow> error + jv list" where
  "iterate (JArr xs) = Inr xs"
| "iterate (JStr s) = Inr (map JStr (code_points s))"
| "iterate v = Inl TypeError"

subsection \<open>Inherited properties\<close>

text \<open>
  The names of the methods every object inherits from \<^verbatim>\<open>Object.prototype\<close> (ECMAScript 2023
  with its annex B). They are read where a key comes from the input. The accessor
  \<^verbatim>\<open>__proto__\<close> is not among them: it is treated where it is read.
\<close>

definition object_prototype_names :: "string list" where
  "object_prototype_names =
     [''constructor'', ''hasOwnProperty'', ''isPrototypeOf'', ''propertyIsEnumerable'',
      ''toLocaleString'', ''toString'', ''valueOf'', ''__defineGetter__'',
      ''__defineSetter__'', ''__lookupGetter__'', ''__lookupSetter__'']"

section \<open>The message normalizer\<close>

text \<open>
  \<^verbatim>\<open>handleChatMessage\<close> (lines 246 to 307). The predicate of the \<^verbatim>\<open>filter\<close> over an array
  content, \<^verbatim>\<open>item && item.type === 'text' && item.text && item.text.trim()\<close>: the
  conjunction stops at the first falsy operand, and \<^verbatim>\<open>item.text.trim()\<close> is a method
  call on whatever truthy value \<^verbatim>\<open>item.text\<close> is.
\<close>

definition valid_item :: "jv \<Rightarrow> error + bool" where
  "valid_item item =
     (if \<not> truthy item then Inr False
      else if get_prop item ''type'' \<noteq> JStr ''text'' then Inr False
      else if \<not> truthy (get_prop item ''text'') then Inr False
      else (case call_trim (get_prop item ''text'') of
              Inl e \<Rightarrow> Inl e
            | Inr t \<Rightarrow> Inr (t \<noteq> [])))"

fun filter_items :: "jv list \<Rightarrow> error + jv list" where
  "filter_items [] = Inr []"
| "filter_items (item # items) =
     (case valid_item item of
        Inl e \<Rightarrow> Inl e
      | Inr keep \<Rightarrow>
          (case filter_items items of
             Inl e \<Rightarrow> Inl e
           | Inr rest \<Rightarrow> Inr (if keep then item # rest else rest)))"

text \<open>The function of the \<^verbatim>\<open>map\<close>: \<^verbatim>\<open>{ ...item, text: item.text.trim() }\<close>.\<close>

definition trim_item :: "jv \<Rightarrow> error + jv" where
  "trim_item item =
     (case call_trim (get_prop item ''text'') of
        Inl e \<Rightarrow> Inl e
      | Inr t \<Rightarrow> Inr (JObj (AList.update ''text'' (JStr t) (spread item))))"

fun map_items :: "jv list \<Rightarrow> error + jv list" where
  "map_items [] = Inr []"
| "map_items (item # items) =
     (case trim_item item of
        Inl e \<Rightarrow> Inl e
      | Inr x \<Rightarrow>
          (case map_items items of
             Inl e \<Rightarrow> Inl e
           | Inr rest \<Rightarrow> Inr (x # rest)))"

definition validContent :: "jv list \<Rightarrow> error + jv list" where
  "validContent items =
     (case filter_items items of
        Inl e \<Rightarrow> Inl e
      | Inr kept \<Rightarrow> map_items kept)"

text \<open>
  One turn of the loop over \<^verbatim>\<open>messages\<close> (lines 250 to 288): \<open>None\<close> is
  \<^verbatim>\<open>continue\<close> (the message is dropped), \<open>Some m\<close> is \<^verbatim>\<open>fixedMessages.push(m)\<close>.
\<close>

definition fixMessage :: "jv \<Rightarrow> error + jv option" where
  "fixMessage message =
     (if \<not> truthy message
         \<or> (\<not> truthy (get_prop message ''content'') \<and> \<not> truthy (get_prop message ''role''))
      then Inr None
      else
        let fixedMessage = spread message;
            content = get_prop message ''content''
        in
          if truthy content \<and> typeof content = ''string'' then
            (case call_trim content of
               Inl e \<Rightarrow> Inl e
             | Inr textContent \<Rightarrow>
                 if textContent \<noteq> []
                 then Inr (Some (JObj (AList.update ''content''
                        (JArr [JObj [(''type'', JStr ''text''), (''text'', JStr textContent)]])
                        fixedMessage)))
                 else Inr None)
          else if isArray content then
            (case validContent (elements content) of
               Inl e \<Rightarrow> Inl e
             | Inr valid \<Rightarrow>
                 if length valid = 0 then Inr None
                 else Inr (Some (JObj (AList.update ''content'' (JArr valid) fixedMessage))))
          else if \<not> truthy content then Inr None
          else Inr (Some (JObj fixedMessage)))"

fun fixedMessages :: "jv list \<Rightarrow> error + jv list" where
  "fixedMessages [] = Inr []"
| "fixedMessages (message # messages) =
     (case fixMessage message of
        Inl e \<Rightarrow> Inl e
      | Inr r \<Rightarrow>
          (case fixedMessages messages of
             Inl e \<Rightarrow> Inl e
           | Inr rest \<Rightarrow> Inr (case r of None \<Rightarrow> rest | Some m \<Rightarrow> m # rest)))"

definition systemMessage :: jv where
  "systemMessage =
     JObj [(''role'', JStr ''system''),
           (''content'', JArr [JObj [(''type'', JStr ''text''),
                                    (''text'', JStr ''You are a helpful assistant.'')]])]"

definition handleChatMessage :: "jv list \<Rightarrow> error + jv list" where
  "handleChatMessage messages =
     (case fixedMessages messages of
        Inl e \<Rightarrow> Inl e
      | Inr fixed \<Rightarrow>
          if length fixed = 1 \<and> get_prop (fixed ! 0) ''role'' \<noteq> JStr ''system''
          then Inr (systemMessage # fixed)
          else Inr fixed)"

section \<open>The stream reducer\<close>

subsection \<open>The text decoder\<close>

text \<open>
  \<^verbatim>\<open>new TextDecoder()\<close> decodes UTF-8, replaces a malformed sequence by U+FFFD and drops a
  byte order mark at the start of the stream. With \<^verbatim>\<open>{ stream: true }\<close> the bytes of a
  sequence that a chunk leaves unfinished are kept for the next call; nothing else is
  carried from one call to the next. Since the model holds a string as its UTF-8
  bytes, a well-formed sequence is handed on as it came.
\<close>

record decoder =
  bytes_needed :: nat
  bytes_seen :: string
  lower_boundary :: nat
  upper_boundary :: nat
  bom_seen :: bool

definition new_decoder :: decoder where
  "new_decoder =
     \<lparr>bytes_needed = 0, bytes_seen = [], lower_boundary = 0x80, upper_boundary = 0xBF,
      bom_seen = False\<rparr>"

definition byte_order_mark :: string where
  "byte_order_mark = [CHR 0xEF, CHR 0xBB, CHR 0xBF]"

definition replacement :: string where
  "replacement = [CHR 0xEF, CHR 0xBF, CHR 0xBD]"

text \<open>One decoded code point reaches the output, but for a byte order mark that is the first.\<close>

definition emit :: "decoder \<Rightarrow> string \<Rightarrow> string \<times> decoder" where
  "emit d cp =
     (if bom_seen d then (cp, d)
      else (if cp = byte_order_mark then [] else cp, d\<lparr>bom_seen := True\<rparr>))"

definition reset :: "decoder \<Rightarrow> decoder" where
  "reset d = d\<lparr>bytes_needed := 0, bytes_seen := [], lower_boundary := 0x80, upper_boundary := 0xBF\<rparr>"

text \<open>A byte that starts a sequence.\<close>

definition decode_lead :: "decoder \<Rightarrow> char \<Rightarrow> string \<times> decoder" where
  "decode_lead d c =
     (let b = (of_char c :: nat)
      in if b \<le> 0x7F then emit d [c]
         else if 0xC2 \<le> b \<and> b \<le> 0xDF then
           ([], d\<lparr>bytes_needed := 1, bytes_seen := [c]\<rparr>)
         else if 0xE0 \<le> b \<and> b \<le> 0xEF then
           ([], d\<lparr>bytes_needed := 2, bytes_seen := [c],
                  lower_boundary := (if b = 0xE0 then 0xA0 else 0x80),
                  upper_boundary := (if b = 0xED then 0x9F else 0xBF)\<rparr>)
         else if 0xF0 \<le> b \<and> b \<le> 0xF4 then
           ([], d\<lparr>bytes_needed := 3, bytes_seen := [c],
                  lower_boundary := (if b = 0xF0 then 0x90 else 0x80),
                  upper_boundary := (if b = 0xF4 then 0x8F else 0xBF)\<rparr>)
         else emit d replacement)"

text \<open>
  Any byte. Inside a sequence, a byte out of range ends the sequence with U+FFFD and is
  read again as the start of the next one.
\<close>

definition decode_byte :: "decoder \<Rightarrow> char \<Rightarrow> string \<times> decoder" where
  "decode_byte d c =
     (let b = (of_char c :: nat)
      in if bytes_needed d = 0 then decode_lead d c
         else if b < lower_boundary d \<or> upper_boundary d < b then
           (let (r, d1) = emit (reset d) replacement;
                (x, d2) = decode_lead d1 c
            in (r @ x, d2))
         else
           (let seen = bytes_seen d @ [c]
            in if length seen = Suc (bytes_needed d) then emit (reset d) seen
               else ([], d\<lparr>bytes_seen := seen, lower_boundary := 0x80, upper_boundary := 0xBF\<rparr>)))"

text \<open>\<^verbatim>\<open>decoder.decode(value, { stream: true })\<close>: the text of a chunk and the decoder after it.\<close>

fun decode :: "decoder \<Rightarrow> string \<Rightarrow> string \<times> decoder" where
  "decode d [] = ([], d)"
| "decode d (c # cs) =
     (let (x, d1) = decode_byte d c;
          (y, d2) = decode d1 cs
      in (x @ y, d2))"

subsection \<open>Lines\<close>

text \<open>\<^verbatim>\<open>chunk.split('\n')\<close>: the pieces between the line feeds, one more than there are line feeds.\<close>

fun split_lines :: "string \<Rightarrow> string list" where
  "split_lines [] = [[]]"
| "split_lines (c # cs) =
     (if c = CHR 0x0A then [] # split_lines cs
      else (case split_lines cs of
              [] \<Rightarrow> [[c]]
            | l # ls \<Rightarrow> (c # l) # ls))"

subsection \<open>The accumulator\<close>

text \<open>
  The variables of \<^verbatim>\<open>collectStreamData\<close> (lines 133 to 143). An entry of \<^verbatim>\<open>toolCalls\<close> is the
  object the program builds at lines 186 to 193, \<^verbatim>\<open>{ id, type, function: { name,
  arguments } }\<close>.
\<close>

record tool_call =
  tc_id :: jv
  tc_type :: jv
  tc_name :: jv
  tc_arguments :: jv

text \<open>
  The key \<^verbatim>\<open>toolCall.index\<close> comes from the stream and may be any property name, so
  \<^verbatim>\<open>toolCalls[toolIndex]\<close> also reaches what the array inherits: the properties of
  \<^verbatim>\<open>Object.prototype\<close> and those of \<^verbatim>\<open>Array.prototype\<close>, whose names (ECMAScript 2023) these
  are; each is a function. \<^verbatim>\<open>length\<close>, which an array has of its own, and \<^verbatim>\<open>__proto__\<close> are
  treated apart.
\<close>

definition array_prototype_names :: "string list" where
  "array_prototype_names =
     [''at'', ''concat'', ''constructor'', ''copyWithin'', ''entries'', ''every'', ''fill'',
      ''filter'', ''find'', ''findIndex'', ''findLast'', ''findLastIndex'', ''flat'',
      ''flatMap'', ''forEach'', ''includes'', ''indexOf'', ''join'', ''keys'',
      ''lastIndexOf'', ''map'', ''pop'', ''push'', ''reduce'', ''reduceRight'', ''reverse'',
      ''shift'', ''slice'', ''some'', ''sort'', ''splice'', ''toLocaleString'',
      ''toReversed'', ''toSorted'', ''toSpliced'', ''toString'', ''unshift'', ''values'',
      ''with'']"

text \<open>
  Lines 198 and 201 write to \<^verbatim>\<open>x.function.arguments\<close> and \<^verbatim>\<open>x.function.name\<close>, where
  \<^verbatim>\<open>x\<close> is whatever \<^verbatim>\<open>toolCalls[toolIndex]\<close> gave. For a value \<^verbatim>\<open>x\<close> that is no entry, this is
  what \<^verbatim>\<open>x.function\<close> is: \<^verbatim>\<open>undefined\<close> or \<^verbatim>\<open>null\<close>, of which no property can be read; a
  primitive value, of which every property reads \<^verbatim>\<open>undefined\<close> and none can be written
  (the program is a module, hence strict code); or an object, with its \<^verbatim>\<open>arguments\<close> and
  its \<^verbatim>\<open>name\<close>.
\<close>

datatype target = Absent | Primitive | Object jv jv

definition target_of :: "jv \<Rightarrow> target" where
  "target_of x =
     (case get_prop x ''function'' of
        JUndefined \<Rightarrow> Absent
      | JNull \<Rightarrow> Absent
      | JObj ps \<Rightarrow> Object (get_prop (JObj ps) ''arguments'') (get_prop (JObj ps) ''name'')
      | JArr xs \<Rightarrow> Object JUndefined JUndefined
      | _ \<Rightarrow> Primitive)"

text \<open>
  In the language \<^verbatim>\<open>__proto__\<close> is an accessor that \<^verbatim>\<open>Object.prototype\<close> has: it reads and
  sets the prototype of an object. Deno deletes it when it starts, unless it is run with
  \<^verbatim>\<open>--unstable-unsafe-proto\<close>; then \<^verbatim>\<open>__proto__\<close> is a name like any other. Which of the two
  holds is a fact of the runtime, not of the program: the functions below take it as
  \<open>unsafe_proto\<close>, true where the accessor is there.

  With the accessor, \<^verbatim>\<open>toolCalls["__proto__"] = currentToolCall\<close> makes the tool call the
  prototype of the array. From then on the array inherits the properties \<^verbatim>\<open>id\<close>, \<^verbatim>\<open>type\<close>
  and \<^verbatim>\<open>function\<close> of that object in place of the methods of \<^verbatim>\<open>Array.prototype\<close>. \<open>p_call\<close> is
  the object, \<open>p_id\<close> and \<open>p_type\<close> are what lines 198 and 201 reach through its \<^verbatim>\<open>id\<close> and
  its \<^verbatim>\<open>type\<close> (values of the stream, which these lines may write to).
\<close>

record prototype_call =
  p_call :: tool_call
  p_id :: target
  p_type :: target

text \<open>
  The array \<^verbatim>\<open>toolCalls\<close> is sparse: \<open>elems\<close> are its positions below \<^verbatim>\<open>length\<close>, \<open>None\<close> a
  hole; \<open>named\<close> are the entries stored under a key that is no array index; \<open>proto\<close> is
  its prototype, \<open>None\<close> for \<^verbatim>\<open>Array.prototype\<close>.
\<close>

record tool_array =
  elems :: "tool_call option list"
  named :: "(string \<times> tool_call) list"
  proto :: "prototype_call option"

record accumulator =
  content :: jv
  model :: jv
  acc_id :: jv
  created :: jv
  finishReason :: jv
  toolCalls :: tool_array
  usage :: jv

text \<open>\<open>now\<close> is \<^verbatim>\<open>Date.now()\<close>, in milliseconds, when the reducer starts.\<close>

definition initial :: "int \<Rightarrow> accumulator" where
  "initial now =
     \<lparr>content = JStr '''',
      model = JStr '''',
      acc_id = JStr '''',
      created = JNum (now div 1000),
      finishReason = JStr ''stop'',
      toolCalls = \<lparr>elems = [], named = [], proto = None\<rparr>,
      usage = JObj [(''prompt_tokens'', JNum 0), (''completion_tokens'', JNum 0),
                    (''total_tokens'', JNum 0)]\<rparr>"

text \<open>
  What \<^verbatim>\<open>toolCalls[k]\<close> holds, as far as the program looks: nothing or a falsy value; an
  entry; or a truthy value \<^verbatim>\<open>x\<close> that is no entry, given by what \<^verbatim>\<open>x.function\<close> is. The
  \<^verbatim>\<open>length\<close> of a non-empty array, an inherited method, \<^verbatim>\<open>Array.prototype\<close> and the
  \<^verbatim>\<open>function\<close> of a tool call have no property \<^verbatim>\<open>function\<close>.
\<close>

datatype slot = Empty | Entry tool_call | Held target

text \<open>
  A name that is no own property of the array, looked up in its prototype chain: a
  method, or a property of the tool call that has become the prototype.
\<close>

definition inherited :: "prototype_call option \<Rightarrow> string \<Rightarrow> slot" where
  "inherited p s =
     (case p of
        None \<Rightarrow>
          if s \<in> set array_prototype_names \<or> s \<in> set object_prototype_names
          then Held Absent else Empty
      | Some c \<Rightarrow>
          if s = ''id'' then Held (p_id c)
          else if s = ''type'' then Held (p_type c)
          else if s = ''function'' then Held Absent
          else if s \<in> set object_prototype_names then Held Absent
          else Empty)"

text \<open>\<^verbatim>\<open>toolCalls[k]\<close> for a key that is no accessor: an own property, or an inherited one.\<close>

fun read_slot :: "tool_array \<Rightarrow> pkey \<Rightarrow> slot" where
  "read_slot a (Index n) =
     (if n < length (elems a)
      then (case elems a ! n of None \<Rightarrow> Empty | Some c \<Rightarrow> Entry c)
      else Empty)"
| "read_slot a (Name s) =
     (if s = ''length'' then (if elems a = [] then Empty else Held Absent)
      else (case map_of (named a) s of
              Some c \<Rightarrow> Entry c
            | None \<Rightarrow> inherited (proto a) s))"

text \<open>
  \<^verbatim>\<open>toolCalls[k]\<close>. With the accessor, the key \<^verbatim>\<open>__proto__\<close> reads the prototype of the array.
\<close>

definition get_slot :: "bool \<Rightarrow> tool_array \<Rightarrow> pkey \<Rightarrow> slot" where
  "get_slot unsafe_proto a k =
     (if unsafe_proto \<and> k = Name ''__proto__''
      then (case proto a of None \<Rightarrow> Held Absent | Some c \<Rightarrow> Entry (p_call c))
      else read_slot a k)"

text \<open>
  The entry under a key replaced. Writing at an index at or past \<^verbatim>\<open>length\<close> makes the
  array longer and leaves holes between.
\<close>

fun put_slot :: "tool_array \<Rightarrow> pkey \<Rightarrow> tool_call \<Rightarrow> tool_array" where
  "put_slot a (Index n) c =
     a\<lparr>elems :=
         (if n < length (elems a) then (elems a)[n := Some c]
          else elems a @ replicate (n - length (elems a)) None @ [Some c])\<rparr>"
| "put_slot a (Name s) c = a\<lparr>named := AList.update s c (named a)\<rparr>"

text \<open>
  \<^verbatim>\<open>toolCalls[k] = c\<close>: an object is no array length, a \<^verbatim>\<open>RangeError\<close>; with the accessor,
  under \<^verbatim>\<open>__proto__\<close> it becomes the prototype; under any other key it becomes an own
  property, also where a property of that name is inherited.
\<close>

definition assign_slot :: "bool \<Rightarrow> tool_array \<Rightarrow> pkey \<Rightarrow> tool_call \<Rightarrow> error + tool_array" where
  "assign_slot unsafe_proto a k c =
     (if k = Name ''length'' then Inl RangeError
      else if unsafe_proto \<and> k = Name ''__proto__''
      then Inr (a\<lparr>proto := Some \<lparr>p_call = c, p_id = target_of (tc_id c),
                                   p_type = target_of (tc_type c)\<rparr>\<rparr>)
      else Inr (put_slot a k c))"

text \<open>
  The entry read under \<open>k\<close> after lines 198 and 201 have written to it: the object is
  changed where it is, in the array or as its prototype.
\<close>

definition update_entry :: "bool \<Rightarrow> tool_array \<Rightarrow> pkey \<Rightarrow> tool_call \<Rightarrow> tool_array" where
  "update_entry unsafe_proto a k c =
     (if unsafe_proto \<and> k = Name ''__proto__''
      then a\<lparr>proto := map_option (\<lambda>p. p\<lparr>p_call := c\<rparr>) (proto a)\<rparr>
      else put_slot a k c)"

text \<open>The same for a value that is no entry, reached through the prototype.\<close>

definition update_held :: "tool_array \<Rightarrow> pkey \<Rightarrow> target \<Rightarrow> tool_array" where
  "update_held a k t =
     (if k = Name ''id'' then a\<lparr>proto := map_option (\<lambda>p. p\<lparr>p_id := t\<rparr>) (proto a)\<rparr>
      else if k = Name ''type'' then a\<lparr>proto := map_option (\<lambda>p. p\<lparr>p_type := t\<rparr>) (proto a)\<rparr>
      else a)"

text \<open>
  \<^verbatim>\<open>x.function.arguments += v\<close> and \<^verbatim>\<open>x.function.name = v\<close> on such a value: a \<^verbatim>\<open>TypeError\<close>
  unless \<^verbatim>\<open>x.function\<close> is an object.
\<close>

fun append_arguments :: "target \<Rightarrow> jv \<Rightarrow> error + target" where
  "append_arguments (Object a n) v =
     (case js_add a v of Inl e \<Rightarrow> Inl e | Inr s \<Rightarrow> Inr (Object s n))"
| "append_arguments t v = Inl TypeError"

fun set_name :: "target \<Rightarrow> jv \<Rightarrow> error + target" where
  "set_name (Object a n) v = Inr (Object a v)"
| "set_name t v = Inl TypeError"

subsection \<open>Statements that may throw\<close>

text \<open>
  The body of the \<^verbatim>\<open>try\<close> (lines 162 to 210) assigns as it goes: when a statement throws,
  what the statements before it assigned stays. A statement yields the variables after
  it, and whether it threw.
\<close>

datatype 's completion = Normal 's | Thrown error 's

definition and_then :: "'s completion \<Rightarrow> ('s \<Rightarrow> 's completion) \<Rightarrow> 's completion" where
  "and_then c f = (case c of Normal s \<Rightarrow> f s | Thrown e s \<Rightarrow> Thrown e s)"

text \<open>\<^verbatim>\<open>catch (e) { }\<close> (lines 211 to 213): the error is dropped.\<close>

definition caught :: "'s completion \<Rightarrow> 's" where
  "caught c = (case c of Normal s \<Rightarrow> s | Thrown e s \<Rightarrow> s)"

subsection \<open>Tool calls\<close>

text \<open>
  One turn of the loop over \<^verbatim>\<open>choice.delta.tool_calls\<close> (lines 181 to 204). A turn throws
  before it assigns, so it yields either an error or the array after it. Line 195 enters
  its branch on any truthy \<^verbatim>\<open>toolCalls[toolIndex]\<close>, entry or not.
\<close>

definition toolStep :: "bool \<Rightarrow> tool_array \<Rightarrow> jv \<Rightarrow> error + tool_array" where
  "toolStep unsafe_proto calls toolCall =
     (if nullish toolCall then Inl TypeError
      else
        let toolIndex = or_else (get_prop toolCall ''index'') (JNum 0);
            fn = get_prop toolCall ''function''
        in
          if truthy (get_prop toolCall ''id'') \<and> truthy (get_prop toolCall ''type'') \<and> truthy fn
          then
            (let currentToolCall =
                   \<lparr>tc_id = get_prop toolCall ''id'',
                    tc_type = get_prop toolCall ''type'',
                    tc_name = or_else (get_prop fn ''name'') (JStr ''''),
                    tc_arguments = or_else (get_prop fn ''arguments'') (JStr '''')\<rparr>
             in (case to_key toolIndex of
                   Inl e \<Rightarrow> Inl e
                 | Inr k \<Rightarrow> assign_slot unsafe_proto calls k currentToolCall))
          else
            (case to_key toolIndex of
               Inl e \<Rightarrow> Inl e
             | Inr k \<Rightarrow>
                 (case get_slot unsafe_proto calls k of
                    Empty \<Rightarrow> Inr calls
                  | Held t \<Rightarrow>
                      if \<not> truthy fn then Inr calls
                      else
                        (case (if get_prop fn ''arguments'' \<noteq> JUndefined
                               then append_arguments t (get_prop fn ''arguments'')
                               else Inr t) of
                           Inl e \<Rightarrow> Inl e
                         | Inr t1 \<Rightarrow>
                             (case (if truthy (get_prop fn ''name'')
                                    then set_name t1 (get_prop fn ''name'')
                                    else Inr t1) of
                                Inl e \<Rightarrow> Inl e
                              | Inr t2 \<Rightarrow> Inr (update_held calls k t2)))
                  | Entry c \<Rightarrow>
                      if \<not> truthy fn then Inr calls
                      else
                        (case (if get_prop fn ''arguments'' \<noteq> JUndefined
                               then (case js_add (tc_arguments c) (get_prop fn ''arguments'') of
                                       Inl e \<Rightarrow> Inl e
                                     | Inr a \<Rightarrow> Inr (c\<lparr>tc_arguments := a\<rparr>))
                               else Inr c) of
                           Inl e \<Rightarrow> Inl e
                         | Inr c1 \<Rightarrow>
                             Inr (update_entry unsafe_proto calls k
                                    (if truthy (get_prop fn ''name'')
                                     then c1\<lparr>tc_name := get_prop fn ''name''\<rparr>
                                     else c1))))))"

fun forToolCalls :: "bool \<Rightarrow> tool_array \<Rightarrow> jv list \<Rightarrow> tool_array completion" where
  "forToolCalls unsafe_proto calls [] = Normal calls"
| "forToolCalls unsafe_proto calls (toolCall # rest) =
     (case toolStep unsafe_proto calls toolCall of
        Inl e \<Rightarrow> Thrown e calls
      | Inr calls1 \<Rightarrow> forToolCalls unsafe_proto calls1 rest)"

subsection \<open>One parsed line\<close>

text \<open>Lines 164 to 169. \<^verbatim>\<open>JSON.parse\<close> may have returned \<^verbatim>\<open>null\<close>, and \<^verbatim>\<open>parsed.id\<close> throws on it.\<close>

definition setHeader :: "accumulator \<Rightarrow> jv \<Rightarrow> accumulator completion" where
  "setHeader acc parsed =
     (if nullish parsed then Thrown TypeError acc
      else
        let acc1 = (if truthy (get_prop parsed ''id'')
                    then acc\<lparr>acc_id := get_prop parsed ''id''\<rparr> else acc);
            acc2 = (if truthy (get_prop parsed ''model'')
                    then acc1\<lparr>model := get_prop parsed ''model''\<rparr> else acc1);
            acc3 = (if truthy (get_prop parsed ''created'')
                    then acc2\<lparr>created := get_prop parsed ''created''\<rparr> else acc2);
            acc4 = (if truthy (get_prop parsed ''usage'')
                    then acc3\<lparr>usage := get_prop parsed ''usage''\<rparr> else acc3)
        in Normal acc4)"

text \<open>Lines 175 to 177: \<^verbatim>\<open>content += choice.delta.content\<close>.\<close>

definition addContent :: "accumulator \<Rightarrow> jv \<Rightarrow> accumulator completion" where
  "addContent acc choice =
     (let delta = get_prop choice ''delta''
      in if truthy delta \<and> truthy (get_prop delta ''content'') then
           (case js_add (content acc) (get_prop delta ''content'') of
              Inl e \<Rightarrow> Thrown e acc
            | Inr v \<Rightarrow> Normal (acc\<lparr>content := v\<rparr>))
         else Normal acc)"

text \<open>Lines 180 to 205.\<close>

definition addToolCalls :: "bool \<Rightarrow> accumulator \<Rightarrow> jv \<Rightarrow> accumulator completion" where
  "addToolCalls unsafe_proto acc choice =
     (let delta = get_prop choice ''delta''
      in if truthy delta \<and> truthy (get_prop delta ''tool_calls'') then
           (case greater_zero (get_prop (get_prop delta ''tool_calls'') ''length'') of
              Inl e \<Rightarrow> Thrown e acc
            | Inr positive \<Rightarrow>
                if positive then
                  (case iterate (get_prop delta ''tool_calls'') of
                     Inl e \<Rightarrow> Thrown e acc
                   | Inr deltas \<Rightarrow>
                       (case forToolCalls unsafe_proto (toolCalls acc) deltas of
                          Normal calls \<Rightarrow> Normal (acc\<lparr>toolCalls := calls\<rparr>)
                        | Thrown e calls \<Rightarrow> Thrown e (acc\<lparr>toolCalls := calls\<rparr>)))
                else Normal acc)
         else Normal acc)"

text \<open>Lines 207 to 209.\<close>

definition setFinishReason :: "accumulator \<Rightarrow> jv \<Rightarrow> accumulator completion" where
  "setFinishReason acc choice =
     Normal (if truthy (get_prop choice ''finish_reason'')
             then acc\<lparr>finishReason := get_prop choice ''finish_reason''\<rparr>
             else acc)"

text \<open>Lines 171 to 210.\<close>

definition applyChoice :: "bool \<Rightarrow> accumulator \<Rightarrow> jv \<Rightarrow> accumulator completion" where
  "applyChoice unsafe_proto acc parsed =
     (if truthy (get_prop parsed ''choices'') \<and> truthy (get_index (get_prop parsed ''choices'') 0)
      then
        (let choice = get_index (get_prop parsed ''choices'') 0
         in and_then (addContent acc choice)
              (\<lambda>acc1. and_then (addToolCalls unsafe_proto acc1 choice)
                 (\<lambda>acc2. setFinishReason acc2 choice)))
      else Normal acc)"

definition applyParsed :: "bool \<Rightarrow> accumulator \<Rightarrow> jv \<Rightarrow> accumulator completion" where
  "applyParsed unsafe_proto acc parsed =
     and_then (setHeader acc parsed) (\<lambda>acc1. applyChoice unsafe_proto acc1 parsed)"

subsection \<open>The loops\<close>

text \<open>
  The body of the loop over the lines of a chunk (lines 154 to 214). \<open>parse\<close> is
  \<^verbatim>\<open>JSON.parse\<close>, \<open>None\<close> where it throws.
\<close>

definition processLine ::
  "bool \<Rightarrow> (string \<Rightarrow> jv option) \<Rightarrow> accumulator \<Rightarrow> string \<Rightarrow> accumulator" where
  "processLine unsafe_proto parse acc line =
     (if prefix ''data: '' line then
        (let data = trim (drop 6 line)
         in if data = ''[DONE]'' then acc
            else (case parse data of
                    None \<Rightarrow> acc
                  | Some parsed \<Rightarrow> caught (applyParsed unsafe_proto acc parsed)))
      else acc)"

text \<open>
  The read loop (lines 146 to 216) over the chunks of the stream, up to the read that
  answers \<^verbatim>\<open>done\<close>. (A stream is the list of its chunks: one whose read fails, which would
  leave the function by the exception of the read, is not among the inputs.)
\<close>

fun readLoop ::
  "bool \<Rightarrow> (string \<Rightarrow> jv option) \<Rightarrow> decoder \<Rightarrow> accumulator \<Rightarrow> string list \<Rightarrow> accumulator" where
  "readLoop unsafe_proto parse d acc [] = acc"
| "readLoop unsafe_proto parse d acc (value # rest) =
     (let (chunk, d1) = decode d value;
          lines = split_lines chunk
      in readLoop unsafe_proto parse d1 (foldl (processLine unsafe_proto parse) acc lines) rest)"

subsection \<open>The document\<close>

text \<open>
  The object \<^verbatim>\<open>collectStreamData\<close> returns. \<open>msg_tool_calls\<close> is the array \<^verbatim>\<open>toolCalls\<close> itself,
  \<open>None\<close> where line 227 does not set the property.
\<close>

record message =
  msg_role :: string
  msg_content :: jv
  msg_tool_calls :: "tool_array option"

record choice =
  ch_index :: int
  ch_message :: message
  ch_finish_reason :: jv

record completion_document =
  doc_id :: jv
  doc_object :: string
  doc_created :: jv
  doc_model :: jv
  doc_choices :: "choice list"
  doc_usage :: jv

text \<open>Lines 221 to 242. \<open>now\<close> is \<^verbatim>\<open>Date.now()\<close> when the document is built.\<close>

definition document :: "int \<Rightarrow> accumulator \<Rightarrow> completion_document" where
  "document now acc =
     (let message =
            \<lparr>msg_role = ''assistant'',
             msg_content = or_else (content acc) JNull,
             msg_tool_calls =
               (if length (elems (toolCalls acc)) > 0 then Some (toolCalls acc) else None)\<rparr>
      in \<lparr>doc_id = or_else (acc_id acc) (JStr (''chatcmpl-'' @ show_int now)),
          doc_object = ''chat.completion'',
          doc_created = created acc,
          doc_model = or_else (model acc) (JStr ''gpt-3.5-turbo''),
          doc_choices = [\<lparr>ch_index = 0, ch_message = message, ch_finish_reason = finishReason acc\<rparr>],
          doc_usage = usage acc\<rparr>)"

text \<open>
  \<^verbatim>\<open>collectStreamData\<close> (lines 129 to 243): \<open>started\<close> and \<open>finished\<close> are the two readings
  of the clock, \<open>stream\<close> the chunks the reader yields before it answers \<^verbatim>\<open>done\<close>.
\<close>

definition collectStreamData ::
  "bool \<Rightarrow> (string \<Rightarrow> jv option) \<Rightarrow> int \<Rightarrow> int \<Rightarrow> string list \<Rightarrow> completion_document" where
  "collectStreamData unsafe_proto parse started finished stream =
     document finished (readLoop unsafe_proto parse new_decoder (initial started) stream)"

section \<open>A JSON parser for the examples\<close>

text \<open>
  The theorems about the reducer hold for every function \<open>parse\<close>. For the examples
  that run the reducer on a concrete stream, \<open>JSON_parse\<close> is \<^verbatim>\<open>JSON.parse\<close> on the JSON
  texts whose numbers are integers and whose strings have no \<^verbatim>\<open>\u\<close> escape (on the other
  texts it answers \<open>None\<close>). The first argument of the recursive functions bounds the
  number of calls; twice the length of the text is enough.
\<close>

definition json_ws :: "char \<Rightarrow> bool" where
  "json_ws c = (c = CHR 0x20 \<or> c = CHR 0x09 \<or> c = CHR 0x0A \<or> c = CHR 0x0D)"

definition skip_ws :: "string \<Rightarrow> string" where
  "skip_ws s = dropWhile json_ws s"

text \<open>The text after the character \<open>c\<close>, when \<open>c\<close> is the next one after white space.\<close>

definition expect :: "char \<Rightarrow> string \<Rightarrow> string option" where
  "expect c s = (case skip_ws s of [] \<Rightarrow> None | x # r \<Rightarrow> if x = c then Some r else None)"

definition unescape :: "char \<Rightarrow> char option" where
  "unescape e =
     (if e = CHR 0x22 then Some (CHR 0x22)
      else if e = CHR 0x5C then Some (CHR 0x5C)
      else if e = CHR ''/'' then Some (CHR ''/'')
      else if e = CHR ''b'' then Some (CHR 0x08)
      else if e = CHR ''f'' then Some (CHR 0x0C)
      else if e = CHR ''n'' then Some (CHR 0x0A)
      else if e = CHR ''r'' then Some (CHR 0x0D)
      else if e = CHR ''t'' then Some (CHR 0x09)
      else None)"

text \<open>The characters of a string literal after its opening quote, and the text after its closing quote.\<close>

fun parse_chars :: "string \<Rightarrow> (string \<times> string) option" where
  "parse_chars [] = None"
| "parse_chars (c # cs) =
     (if c = CHR 0x22 then Some ([], cs)
      else if c = CHR 0x5C then
        (case cs of
           [] \<Rightarrow> None
         | e # r \<Rightarrow>
             (case unescape e of
                None \<Rightarrow> None
              | Some x \<Rightarrow>
                  (case parse_chars r of
                     None \<Rightarrow> None
                   | Some (s, r1) \<Rightarrow> Some (x # s, r1))))
      else if (of_char c :: nat) < 0x20 then None
      else (case parse_chars cs of
              None \<Rightarrow> None
            | Some (s, r) \<Rightarrow> Some (c # s, r)))"

definition parse_number :: "string \<Rightarrow> (jv \<times> string) option" where
  "parse_number s =
     (let negative = (s \<noteq> [] \<and> hd s = CHR ''-'');
          t = (if negative then tl s else s);
          ds = takeWhile is_digit t;
          r = dropWhile is_digit t
      in if ds = [] then None
         else if 1 < length ds \<and> hd ds = CHR ''0'' then None
         else if r \<noteq> [] \<and> (hd r = CHR ''.'' \<or> hd r = CHR ''e'' \<or> hd r = CHR ''E'') then None
         else (case read_nat ds of
                 None \<Rightarrow> None
               | Some n \<Rightarrow> Some (JNum (if negative then - int n else int n), r)))"

text \<open>The properties of an object literal: a name written twice keeps its place and takes the later value.\<close>

definition object_of :: "(string \<times> jv) list \<Rightarrow> jv" where
  "object_of kvs = JObj (foldl (\<lambda>ps (k, v). AList.update k v ps) [] kvs)"

fun parse_value :: "nat \<Rightarrow> string \<Rightarrow> (jv \<times> string) option"
  and parse_items :: "nat \<Rightarrow> string \<Rightarrow> (jv list \<times> string) option"
  and parse_fields :: "nat \<Rightarrow> string \<Rightarrow> ((string \<times> jv) list \<times> string) option" where
  "parse_value 0 s = None"
| "parse_value (Suc n) s =
     (let t = skip_ws s
      in if t = [] then None
         else if hd t = CHR ''{'' then
           (case expect (CHR ''}'') (tl t) of
              Some r \<Rightarrow> Some (JObj [], r)
            | None \<Rightarrow>
                (case parse_fields n (tl t) of
                   None \<Rightarrow> None
                 | Some (kvs, r) \<Rightarrow> Some (object_of kvs, r)))
         else if hd t = CHR ''['' then
           (case expect (CHR '']'') (tl t) of
              Some r \<Rightarrow> Some (JArr [], r)
            | None \<Rightarrow>
                (case parse_items n (tl t) of
                   None \<Rightarrow> None
                 | Some (items, r) \<Rightarrow> Some (JArr items, r)))
         else if hd t = CHR 0x22 then
           (case parse_chars (tl t) of
              None \<Rightarrow> None
            | Some (x, r) \<Rightarrow> Some (JStr x, r))
         else if prefix ''true'' t then Some (JBool True, drop 4 t)
         else if prefix ''false'' t then Some (JBool False, drop 5 t)
         else if prefix ''null'' t then Some (JNull, drop 4 t)
         else parse_number t)"
| "parse_items 0 s = None"
| "parse_items (Suc n) s =
     (case parse_value n s of
        None \<Rightarrow> None
      | Some (v, r) \<Rightarrow>
          (case expect (CHR '','') r of
             Some r1 \<Rightarrow>
               (case parse_items n r1 of
                  None \<Rightarrow> None
                | Some (vs, r2) \<Rightarrow> Some (v # vs, r2))
           | None \<Rightarrow>
               (case expect (CHR '']'') r of
                  Some r1 \<Rightarrow> Some ([v], r1)
                | None \<Rightarrow> None)))"
| "parse_fields 0 s = None"
| "parse_fields (Suc n) s =
     (case expect (CHR 0x22) s of
        None \<Rightarrow> None
      | Some s1 \<Rightarrow>
          (case parse_chars s1 of
             None \<Rightarrow> None
           | Some (k, s2) \<Rightarrow>
               (case expect (CHR '':'') s2 of
                  None \<Rightarrow> None
                | Some s3 \<Rightarrow>
                    (case parse_value n s3 of
                       None \<Rightarrow> None
                     | Some (v, r) \<Rightarrow>
                         (case expect (CHR '','') r of
                            Some r1 \<Rightarrow>
                              (case parse_fields n r1 of
                                 None \<Rightarrow> None
                               | Some (fs, r2) \<Rightarrow> Some ((k, v) # fs, r2))
                          | None \<Rightarrow>
                              (case expect (CHR ''}'') r of
                                 Some r1 \<Rightarrow> Some ([(k, v)], r1)
                               | None \<Rightarrow> None))))))"

definition JSON_parse :: "string \<Rightarrow> jv option" where
  "JSON_parse s =
     (case parse_value (2 * length s + 2) s of
        None \<Rightarrow> None
      | Some (v, r) \<Rightarrow> if skip_ws r = [] then Some v else None)"

section \<open>The request handler\<close>

text \<open>
  \<^verbatim>\<open>handleRequest\<close> (lines 15 to 126). A request is its method, the path of its URL, its
  headers and the text of its body. The \<^verbatim>\<open>Headers\<close> object keeps names in lower case and
  \<^verbatim>\<open>get\<close> lowers the name it is asked for: \<open>req_headers\<close> lists each name once, in lower
  case, with its value; \<^verbatim>\<open>get\<close> answers \<^verbatim>\<open>null\<close> for a name that is not there.
\<close>

record request =
  req_method :: string
  req_pathname :: string
  req_headers :: "(string \<times> string) list"
  req_body :: string

definition lower_char :: "char \<Rightarrow> char" where
  "lower_char c =
     (case map_of (zip ''ABCDEFGHIJKLMNOPQRSTUVWXYZ'' ''abcdefghijklmnopqrstuvwxyz'') c of
        None \<Rightarrow> c
      | Some l \<Rightarrow> l)"

definition headers_get :: "(string \<times> string) list \<Rightarrow> string \<Rightarrow> jv" where
  "headers_get hs name =
     (case map_of hs (map lower_char name) of None \<Rightarrow> JNull | Some v \<Rightarrow> JStr v)"

text \<open>
  The upstream call: what \<^verbatim>\<open>fetch\<close> is given (the URL, the \<^verbatim>\<open>Authorization\<close> header, the
  body before \<^verbatim>\<open>JSON.stringify\<close>) and what it answers (the status, and the chunks of the
  body, \<open>None\<close> for a response without one). \<^verbatim>\<open>fetch\<close> itself is a parameter of the model;
  it may throw.
\<close>

record upstream_request =
  up_url :: string
  up_authorization :: jv
  up_user_agent :: string
  up_body :: jv

record upstream_response =
  res_status :: nat
  res_body :: "string list option"

definition res_ok :: "upstream_response \<Rightarrow> bool" where
  "res_ok r = (200 \<le> res_status r \<and> res_status r \<le> 299)"

text \<open>\<^verbatim>\<open>response.text()\<close>: the whole body decoded, an unfinished sequence at its end replaced.\<close>

definition res_text :: "upstream_response \<Rightarrow> string" where
  "res_text r =
     (case res_body r of
        None \<Rightarrow> []
      | Some chunks \<Rightarrow>
          (let (x, d) = decode new_decoder (concat chunks)
           in if bytes_needed d = 0 then x else x @ fst (emit d replacement)))"

text \<open>
  The responses of the handler. The message of an error envelope is a text of the
  program, the message of the error that was caught (a text of the platform), or a
  value taken from the upstream's error body.
\<close>

datatype message_text = Literal string | MessageOf error | Taken jv

datatype response_body =
    Plain string
  | Envelope message_text string
  | PassThrough "string list option"
  | Document completion_document

record response =
  resp_status :: nat
  resp_headers :: "(string \<times> string) list"
  resp_body :: response_body

definition json_headers :: "(string \<times> string) list" where
  "json_headers = [(''Content-Type'', ''application/json'')]"

definition cors_headers :: "(string \<times> string) list" where
  "cors_headers =
     [(''Access-Control-Allow-Origin'', ''*''),
      (''Access-Control-Allow-Methods'', ''POST, OPTIONS''),
      (''Access-Control-Allow-Headers'', ''Content-Type, Authorization, x-api-key'')]"

text \<open>Lines 34 to 43.\<close>

definition authError :: response where
  "authError =
     \<lparr>resp_status = 401, resp_headers = json_headers,
      resp_body = Envelope (Literal ''Authorization header is required'') ''auth_error''\<rparr>"

text \<open>The \<^verbatim>\<open>catch\<close> of lines 113 to 125.\<close>

definition internalError :: "error \<Rightarrow> response" where
  "internalError e =
     \<lparr>resp_status = 500, resp_headers = json_headers, resp_body = Envelope (MessageOf e) ''server_error''\<rparr>"

text \<open>
  \<^verbatim>\<open>modelMapping[model] || model\<close> (lines 7 to 9 and 50). The mapping is an object, so a
  model named as a property it inherits is mapped to that property: a method, or, for
  \<^verbatim>\<open>__proto__\<close> where the runtime has this accessor (\<open>unsafe_proto\<close>), the object
  \<^verbatim>\<open>Object.prototype\<close>.
\<close>

definition modelMapping :: "(string \<times> string) list" where
  "modelMapping = [(''claude-4.0'', ''default-model'')]"

datatype mapped_value = Model jv | Inherited_method | Prototype_object

definition mappedModel :: "bool \<Rightarrow> jv \<Rightarrow> error + mapped_value" where
  "mappedModel unsafe_proto model_name =
     (case to_string model_name of
        Inl e \<Rightarrow> Inl e
      | Inr k \<Rightarrow>
          Inr (case map_of modelMapping k of
                 Some m \<Rightarrow> Model (or_else (JStr m) model_name)
               | None \<Rightarrow>
                   if unsafe_proto \<and> k = ''__proto__'' then Prototype_object
                   else if k \<in> set object_prototype_names then Inherited_method
                   else Model model_name))"

text \<open>
  Lines 61: \<^verbatim>\<open>{ ...body, stream: true, messages, model: mappedModel }\<close> as
  \<^verbatim>\<open>JSON.stringify\<close> writes it: it leaves out the properties whose value is \<^verbatim>\<open>undefined\<close> or
  a function, and writes \<^verbatim>\<open>Object.prototype\<close>, which has no enumerable property, as \<^verbatim>\<open>{}\<close>.
\<close>

definition written :: "mapped_value \<Rightarrow> jv" where
  "written m = (case m of Model v \<Rightarrow> v | Inherited_method \<Rightarrow> JUndefined | Prototype_object \<Rightarrow> JObj [])"

definition upstream_body :: "jv \<Rightarrow> jv list \<Rightarrow> mapped_value \<Rightarrow> jv" where
  "upstream_body body messages m =
     JObj (filter (\<lambda>(k, v). v \<noteq> JUndefined)
       (AList.update ''model'' (written m)
         (AList.update ''messages'' (JArr messages)
           (AList.update ''stream'' (JBool True) (spread body)))))"

text \<open>Lines 67 to 73: the message of an upstream failure.\<close>

definition errorMessage :: "(string \<Rightarrow> jv option) \<Rightarrow> string \<Rightarrow> message_text" where
  "errorMessage parse errorData =
     (case parse errorData of
        None \<Rightarrow> Literal ''API request failed''
      | Some parsed \<Rightarrow>
          if nullish parsed then Literal ''API request failed''
          else
            (let err = get_prop parsed ''error'';
                 m = or_else (if nullish err then JUndefined else get_prop err ''message'')
                       (get_prop parsed ''message'')
             in if truthy m then Taken m else Literal ''API request failed''))"

text \<open>
  Lines 29 to 31. The third name is the first again in another spelling, and \<^verbatim>\<open>get\<close> does
  not tell them apart.
\<close>

definition token_of :: "(string \<times> string) list \<Rightarrow> jv" where
  "token_of hs =
     or_else (or_else (headers_get hs ''authorization'') (headers_get hs ''x-api-key''))
       (headers_get hs ''Authorization'')"

text \<open>
  The handler answers with a response; the model gives beside it the upstream calls
  made on the way. \<open>started\<close> and \<open>finished\<close> are the clock readings of the reducer,
  \<open>unsafe_proto\<close> tells whether the runtime has the accessor \<^verbatim>\<open>__proto__\<close>.
  Whatever is thrown inside the \<^verbatim>\<open>try\<close> ends in the \<^verbatim>\<open>catch\<close> of line 113. That includes the
  constructor of the error response (line 75), which refuses a status outside 200 to
  599 with a \<^verbatim>\<open>RangeError\<close> and a body on the status 304 with a \<^verbatim>\<open>TypeError\<close>.
\<close>

definition handleRequest ::
  "bool \<Rightarrow> (string \<Rightarrow> jv option) \<Rightarrow> (upstream_request \<Rightarrow> error + upstream_response) \<Rightarrow> int \<Rightarrow> int
     \<Rightarrow> request \<Rightarrow> response \<times> upstream_request list" where
  "handleRequest unsafe_proto parse fetch started finished request =
     (if req_method request \<noteq> ''POST'' then
        (\<lparr>resp_status = 405, resp_headers = [], resp_body = Plain ''Method Not Allowed''\<rparr>, [])
      else if \<not> sublist ''/chat/completions'' (req_pathname request) then
        (\<lparr>resp_status = 404, resp_headers = [], resp_body = Plain ''Not Found''\<rparr>, [])
      else
        (case parse (req_body request) of
           None \<Rightarrow> (internalError SyntaxError, [])
         | Some body \<Rightarrow>
             if nullish body then (internalError TypeError, [])
             else
               let isStream = (get_prop body ''stream'' = JBool True);
                   token = token_of (req_headers request)
               in
                 if \<not> truthy token then (authError, [])
                 else
                   (case iterate (get_prop body ''messages'') of
                      Inl e \<Rightarrow> (internalError e, [])
                    | Inr raw \<Rightarrow>
                        (case handleChatMessage raw of
                           Inl e \<Rightarrow> (internalError e, [])
                         | Inr messages \<Rightarrow>
                             (case mappedModel unsafe_proto (get_prop body ''model'') of
                                Inl e \<Rightarrow> (internalError e, [])
                              | Inr mapped \<Rightarrow>
                                  let call =
                                        \<lparr>up_url = ''https://www.codebuddy.ai/v2/chat/completions'',
                                         up_authorization = token,
                                         up_user_agent = ''CodeBuddyIDE/0.2.2'',
                                         up_body = upstream_body body messages mapped\<rparr>
                                  in
                                    (case fetch call of
                                       Inl e \<Rightarrow> (internalError e, [call])
                                     | Inr response \<Rightarrow>
                                         if \<not> res_ok response then
                                           (if res_status response < 200 \<or> 599 < res_status response
                                            then (internalError RangeError, [call])
                                            else if res_status response = 304
                                            then (internalError TypeError, [call])
                                            else
                                              (\<lparr>resp_status = res_status response,
                                                resp_headers = json_headers,
                                                resp_body = Envelope
                                                  (errorMessage parse (res_text response))
                                                  ''server_error''\<rparr>, [call]))
                                         else if isStream then
                                           (\<lparr>resp_status = 200,
                                             resp_headers = [(''Content-Type'', ''text/event-stream''),
                                                        (''Cache-Control'', ''no-cache''),
                                                        (''Connection'', ''keep-alive'')]
                                                       @ cors_headers,
                                             resp_body = PassThrough (res_body response)\<rparr>, [call])
                                         else
                                           (case res_body response of
                                              None \<Rightarrow> (internalError TypeError, [call])
                                            | Some stream \<Rightarrow>
                                                (\<lparr>resp_status = 200,
                                                  resp_headers = json_headers @ cors_headers,
                                                  resp_body = Document
                                                    (collectStreamData unsafe_proto parse started finished
                                                       stream)\<rparr>, [call]))))))))"

section \<open>Notions the properties are stated with\<close>

subsection \<open>The normalizer\<close>

text \<open>
  A content block as the specification wants it (type \<^verbatim>\<open>"text"\<close>, a text that is not
  empty and is its own trimmed form), and a message whose content is a non-empty
  sequence of such blocks.
\<close>

definition valid_block :: "jv \<Rightarrow> bool" where
  "valid_block b =
     (get_prop b ''type'' = JStr ''text''
      \<and> (case get_prop b ''text'' of JStr t \<Rightarrow> t \<noteq> [] \<and> trim t = t | _ \<Rightarrow> False))"

definition valid_message :: "jv \<Rightarrow> bool" where
  "valid_message m =
     (case get_prop m ''content'' of
        JArr bs \<Rightarrow> bs \<noteq> [] \<and> list_all valid_block bs
      | _ \<Rightarrow> False)"

text \<open>A content the normalizer has a branch for: a string, a sequence, or a falsy value.\<close>

fun plain_content :: "jv \<Rightarrow> bool" where
  "plain_content (JStr s) = True"
| "plain_content (JArr xs) = True"
| "plain_content v = (\<not> truthy v)"

text \<open>
  An element of a content sequence whose \<^verbatim>\<open>text\<close>, when the filter comes to trim it, is a
  string.
\<close>

definition text_typed :: "jv \<Rightarrow> bool" where
  "text_typed item =
     (truthy item \<and> get_prop item ''type'' = JStr ''text'' \<and> truthy (get_prop item ''text'')
        \<longrightarrow> typeof (get_prop item ''text'') = ''string'')"

subsection \<open>The reducer\<close>

text \<open>
  The decoder after a line feed, and the text of a line of bytes that follows a line
  feed and is ended by one. \<open>steady\<close> holds of the decoder all along a stream.
\<close>

definition after_line_feed :: decoder where
  "after_line_feed = new_decoder\<lparr>bom_seen := True\<rparr>"

definition line_text :: "string \<Rightarrow> string" where
  "line_text bytes = butlast (fst (decode after_line_feed (bytes @ [CHR 0x0A])))"

definition steady :: "decoder \<Rightarrow> bool" where
  "steady d =
     ((bytes_needed d = 0 \<longrightarrow>
         bytes_seen d = [] \<and> lower_boundary d = 0x80 \<and> upper_boundary d = 0xBF)
      \<and> 0x80 \<le> lower_boundary d
      \<and> CHR 0x0A \<notin> set (bytes_seen d))"

text \<open>The lines the read loop goes through, chunk after chunk.\<close>

fun stream_lines :: "decoder \<Rightarrow> string list \<Rightarrow> string list" where
  "stream_lines d [] = []"
| "stream_lines d (value # rest) =
     (let (chunk, d1) = decode d value
      in split_lines chunk @ stream_lines d1 rest)"

text \<open>
  The value a line contributes: that of \<^verbatim>\<open>JSON.parse\<close> on a \<^verbatim>\<open>data: \<close> line other than
  \<^verbatim>\<open>[DONE]\<close> that parses; \<open>None\<close> for every other line.
\<close>

definition line_value :: "(string \<Rightarrow> jv option) \<Rightarrow> string \<Rightarrow> jv option" where
  "line_value parse line =
     (if prefix ''data: '' line \<and> trim (drop 6 line) \<noteq> ''[DONE]''
      then parse (trim (drop 6 line))
      else None)"

definition parsed_values :: "(string \<Rightarrow> jv option) \<Rightarrow> string list \<Rightarrow> jv list" where
  "parsed_values parse lines = List.map_filter (line_value parse) lines"

text \<open>The parsed values applied in order, each inside its \<^verbatim>\<open>try\<close>.\<close>

definition applyAll :: "bool \<Rightarrow> accumulator \<Rightarrow> jv list \<Rightarrow> accumulator" where
  "applyAll unsafe_proto acc vs = foldl (\<lambda>a v. caught (applyParsed unsafe_proto a v)) acc vs"

text \<open>The truthy \<^verbatim>\<open>created\<close> fields of the parsed values, in order.\<close>

definition created_values :: "jv list \<Rightarrow> jv list" where
  "created_values vs =
     map (\<lambda>v. get_prop v ''created'')
       (filter (\<lambda>v. \<not> nullish v \<and> truthy (get_prop v ''created'')) vs)"

subsection \<open>Tool-call deltas\<close>

text \<open>
  The key a tool-call delta is stored under (\<^verbatim>\<open>toolCall.index || 0\<close>, as a property key),
  and the test of line 184 for a delta that starts a tool call.
\<close>

definition tool_key :: "jv \<Rightarrow> error + pkey" where
  "tool_key toolCall = to_key (or_else (get_prop toolCall ''index'') (JNum 0))"

definition is_start :: "jv \<Rightarrow> bool" where
  "is_start toolCall =
     (\<not> nullish toolCall \<and> truthy (get_prop toolCall ''id'')
      \<and> truthy (get_prop toolCall ''type'') \<and> truthy (get_prop toolCall ''function''))"

text \<open>
  A continuation delta at index \<open>n\<close> with the fragment \<open>frag\<close>: it does not start a tool
  call, and its \<^verbatim>\<open>function.arguments\<close> is the string \<open>frag\<close>.
\<close>

definition continuation :: "nat \<Rightarrow> jv \<Rightarrow> string \<Rightarrow> bool" where
  "continuation n toolCall frag =
     (\<not> nullish toolCall \<and> \<not> is_start toolCall \<and> tool_key toolCall = Inr (Index n)
      \<and> get_prop (get_prop toolCall ''function'') ''arguments'' = JStr frag)"

text \<open>The parsed line that carries one tool-call delta, \<^verbatim>\<open>{"choices":[{"delta":{"tool_calls":[tc]}}]}\<close>.\<close>

definition tool_call_delta :: "jv \<Rightarrow> jv" where
  "tool_call_delta toolCall =
     JObj [(''choices'', JArr [JObj [(''delta'', JObj [(''tool_calls'', JArr [toolCall])])]])]"

text \<open>The arguments accumulated at an index, when an entry is there.\<close>

definition arguments_at :: "tool_array \<Rightarrow> nat \<Rightarrow> jv option" where
  "arguments_at calls n =
     (case read_slot calls (Index n) of Entry c \<Rightarrow> Some (tc_arguments c) | _ \<Rightarrow> None)"

text \<open>The tool-call deltas of a parsed value: what the loop of line 181 would go through.\<close>

definition tool_deltas :: "jv \<Rightarrow> jv list" where
  "tool_deltas parsed =
     (case iterate (get_prop (get_prop (get_index (get_prop parsed ''choices'') 0) ''delta'')
                      ''tool_calls'') of
        Inl e \<Rightarrow> []
      | Inr deltas \<Rightarrow> deltas)"

text \<open>
  A parsed line that opens a tool call: the first of its tool-call deltas starts a tool
  call under an array index, and its content delta can be appended (the conversion of
  \<^verbatim>\<open>choice.delta.content\<close> to a primitive value does not throw).
\<close>

definition array_start :: "jv \<Rightarrow> bool" where
  "array_start toolCall =
     (is_start toolCall \<and> (case tool_key toolCall of Inr (Index n) \<Rightarrow> True | _ \<Rightarrow> False))"

definition opens_tool_call :: "jv \<Rightarrow> bool" where
  "opens_tool_call parsed =
     ((case to_primitive (get_prop (get_prop (get_index (get_prop parsed ''choices'') 0) ''delta'')
                            ''content'') of
         Inl e \<Rightarrow> False
       | Inr p \<Rightarrow> True)
      \<and> (case tool_deltas parsed of [] \<Rightarrow> False | toolCall # rest \<Rightarrow> array_start toolCall))"

text \<open>The positions of the array that hold an entry.\<close>

definition populated :: "tool_array \<Rightarrow> nat set" where
  "populated calls = {i. i < length (elems calls) \<and> elems calls ! i \<noteq> None}"

text \<open>
  The array ends with an entry (its length is one more than its greatest populated
  position), and the positions below \<open>k\<close> are holes.
\<close>

definition no_trailing_hole :: "tool_array \<Rightarrow> bool" where
  "no_trailing_hole calls = (elems calls = [] \<or> last (elems calls) \<noteq> None)"

definition holes_below :: "nat \<Rightarrow> tool_array \<Rightarrow> bool" where
  "holes_below k calls = (\<forall>i<k. i < length (elems calls) \<longrightarrow> elems calls ! i = None)"

text \<open>The accumulator at the end of a stream.\<close>

definition final_accumulator ::
  "bool \<Rightarrow> (string \<Rightarrow> jv option) \<Rightarrow> int \<Rightarrow> string list \<Rightarrow> accumulator" where
  "final_accumulator unsafe_proto parse started stream =
     readLoop unsafe_proto parse new_decoder (initial started) stream"

subsection \<open>The handler\<close>

text \<open>A header name carries a value: \<^verbatim>\<open>get\<close> answers a string that is not empty.\<close>

definition carries_value :: "(string \<times> string) list \<Rightarrow> string \<Rightarrow> bool" where
  "carries_value hs name = truthy (headers_get hs name)"

section \<open>Lemmas\<close>

subsection \<open>Trimming\<close>

lemma strip_front_no_prefix:
  "t \<in> set ts \<Longrightarrow> t \<noteq> [] \<Longrightarrow> \<not> prefix t (strip_front ts s)"
proof (induction ts s rule: strip_front.induct)
  case (1 ts s)
  show ?case
  proof (cases "find (\<lambda>t. t \<noteq> [] \<and> prefix t s) ts")
    case None
    then have "\<not> prefix t s" using 1(2,3) by (auto simp: find_None_iff)
    with None show ?thesis by (subst strip_front.simps) simp
  next
    case (Some u)
    with 1 show ?thesis by (subst strip_front.simps) simp
  qed
qed

lemma strip_front_suffix: "suffix (strip_front ts s) s"
proof (induction ts s rule: strip_front.induct)
  case (1 ts s)
  show ?case
  proof (cases "find (\<lambda>t. t \<noteq> [] \<and> prefix t s) ts")
    case None
    then show ?thesis by (subst strip_front.simps) simp
  next
    case (Some u)
    with 1 have "suffix (strip_front ts (drop (length u) s)) (drop (length u) s)" by simp
    then have "suffix (strip_front ts (drop (length u) s)) s"
      using suffix_drop suffix_order.trans by blast
    with Some show ?thesis by (subst strip_front.simps) simp
  qed
qed

lemma strip_front_id:
  assumes "\<And>t. t \<in> set ts \<Longrightarrow> t \<noteq> [] \<Longrightarrow> \<not> prefix t s"
  shows "strip_front ts s = s"
proof -
  have "find (\<lambda>t. t \<noteq> [] \<and> prefix t s) ts = None"
    using assms by (auto simp: find_None_iff)
  then show ?thesis by (subst strip_front.simps) simp
qed

lemma trim_idem: "trim (trim s) = trim s"
proof -
  define a where "a = trimStart s"
  define b where "b = trimEnd a"
  have b: "b = trim s" by (simp add: b_def a_def trim_def)
  have na: "\<And>t. t \<in> set ws_tokens \<Longrightarrow> t \<noteq> [] \<Longrightarrow> \<not> prefix t a"
    unfolding a_def trimStart_def by (rule strip_front_no_prefix)
  have "suffix (rev b) (rev a)"
    unfolding b_def trimEnd_def rev_rev_ident by (rule strip_front_suffix)
  then have pba: "prefix b a" by (simp add: suffix_to_prefix)
  have nb: "\<And>t. t \<in> set ws_tokens \<Longrightarrow> t \<noteq> [] \<Longrightarrow> \<not> prefix t b"
    using na pba prefix_order.trans by blast
  have sb: "trimStart b = b"
    unfolding trimStart_def by (rule strip_front_id) (rule nb)
  have ne: "\<And>t. t \<in> set (map rev ws_tokens) \<Longrightarrow> t \<noteq> [] \<Longrightarrow> \<not> prefix t (rev b)"
    unfolding b_def trimEnd_def rev_rev_ident by (rule strip_front_no_prefix)
  have "strip_front (map rev ws_tokens) (rev b) = rev b"
    by (rule strip_front_id) (rule ne)
  then have te: "trimEnd b = b"
    unfolding trimEnd_def by simp
  have "trim b = b" by (simp add: trim_def sb te)
  then show ?thesis by (simp only: b)
qed

subsection \<open>Evaluation on concrete inputs\<close>

lemmas parse_value_numeral = parse_value.simps(2)[of "pred_numeral k", folded numeral_eq_Suc] for k
lemmas parse_items_numeral = parse_items.simps(2)[of "pred_numeral k", folded numeral_eq_Suc] for k
lemmas parse_fields_numeral = parse_fields.simps(2)[of "pred_numeral k", folded numeral_eq_Suc] for k

lemmas json_eval = JSON_parse_def parse_value_numeral parse_items_numeral parse_fields_numeral
  skip_ws_def json_ws_def expect_def object_of_def parse_number_def read_nat_def is_digit_def
  unescape_def

lemmas trim_eval = trim_def trimStart_def trimEnd_def strip_front.simps ws_tokens_def

lemmas decode_eval = new_decoder_def decode_byte_def decode_lead_def emit_def reset_def
  byte_order_mark_def replacement_def

lemmas show_eval = show_int_def show_nat.simps digit_char_def

lemmas apply_eval = applyAll_def applyParsed_def setHeader_def applyChoice_def addContent_def
  addToolCalls_def setFinishReason_def and_then_def caught_def toolStep_def assign_slot_def
  js_add_def to_primitive_def greater_zero_def to_number_def to_key_def key_of_string_def
  read_nat_def is_digit_def or_else_def initial_def Let_def

lemmas line_eval = parsed_values_def map_filter_simps line_value_def

subsection \<open>The normalizer\<close>

lemma valid_item_True:
  assumes "valid_item x = Inr True"
  shows "\<exists>ps t. x = JObj ps \<and> map_of ps ''type'' = Some (JStr ''text'')
           \<and> map_of ps ''text'' = Some (JStr t) \<and> trim t \<noteq> []"
proof (cases x)
  case (JObj ps)
  from assms have ty: "get_prop x ''type'' = JStr ''text''"
    by (auto simp: valid_item_def split: if_splits)
  from assms ty obtain t where t: "get_prop x ''text'' = JStr t" "trim t \<noteq> []"
    by (cases "get_prop x ''text''") (auto simp: valid_item_def split: if_splits)
  from ty t JObj show ?thesis
    by (auto split: option.splits)
qed (use assms in \<open>auto simp: valid_item_def split: if_splits\<close>)

lemma filter_items_valid:
  "filter_items xs = Inr ys \<Longrightarrow> y \<in> set ys \<Longrightarrow> valid_item y = Inr True"
  by (induction xs arbitrary: ys) (auto split: sum.splits if_splits)

lemma trim_item_valid:
  assumes "valid_item x = Inr True"
  shows "\<exists>y. trim_item x = Inr y \<and> valid_block y"
proof -
  from valid_item_True[OF assms] obtain ps t where
    x: "x = JObj ps" and ty: "map_of ps ''type'' = Some (JStr ''text'')"
    and tx: "map_of ps ''text'' = Some (JStr t)" and ne: "trim t \<noteq> []"
    by blast
  have "trim_item x = Inr (JObj (AList.update ''text'' (JStr (trim t)) ps))"
    by (simp add: trim_item_def x tx)
  moreover have "valid_block (JObj (AList.update ''text'' (JStr (trim t)) ps))"
    by (simp add: valid_block_def update_conv' ty ne trim_idem)
  ultimately show ?thesis by blast
qed

lemma map_items_valid:
  "(\<And>x. x \<in> set xs \<Longrightarrow> valid_item x = Inr True) \<Longrightarrow>
   \<exists>ys. map_items xs = Inr ys \<and> list_all valid_block ys \<and> length ys = length xs"
proof (induction xs)
  case Nil
  then show ?case by simp
next
  case (Cons x xs)
  from Cons.prems obtain y where y: "trim_item x = Inr y" "valid_block y"
    using trim_item_valid by (meson list.set_intros(1))
  from Cons obtain ys where "map_items xs = Inr ys" "list_all valid_block ys" "length ys = length xs"
    by (meson list.set_intros(2))
  with y show ?case by simp
qed

lemma validContent_valid:
  assumes "validContent items = Inr v"
  shows "list_all valid_block v"
proof -
  from assms obtain kept where k: "filter_items items = Inr kept" and m: "map_items kept = Inr v"
    by (auto simp: validContent_def split: sum.splits)
  from map_items_valid[of kept] filter_items_valid[OF k] m show ?thesis
    by auto
qed

lemma get_prop_update_same: "get_prop (JObj (AList.update k v ps)) k = v"
  by (simp add: update_conv')

lemma fixMessage_valid:
  assumes "plain_content (get_prop m ''content'')" and "fixMessage m = Inr (Some fm)"
  shows "valid_message fm"
proof (cases "get_prop m ''content''")
  case (JStr s)
  with assms(2) have "fm = JObj (AList.update ''content''
      (JArr [JObj [(''type'', JStr ''text''), (''text'', JStr (trim s))]]) (spread m))"
    and "trim s \<noteq> []"
    by (auto simp: fixMessage_def Let_def split: if_splits)
  then show ?thesis
    by (simp add: valid_message_def update_conv' valid_block_def trim_idem)
next
  case (JArr items)
  with assms(2) obtain v where v: "validContent items = Inr v" "v \<noteq> []"
    and fm: "fm = JObj (AList.update ''content'' (JArr v) (spread m))"
    by (auto simp: fixMessage_def Let_def split: if_splits sum.splits)
  from validContent_valid[OF v(1)] v(2) fm show ?thesis
    by (simp add: valid_message_def update_conv')
qed (use assms in \<open>auto simp: fixMessage_def Let_def split: if_splits\<close>)

lemma fixedMessages_valid:
  "(\<And>m. m \<in> set ms \<Longrightarrow> plain_content (get_prop m ''content'')) \<Longrightarrow>
   fixedMessages ms = Inr out \<Longrightarrow> list_all valid_message out"
proof (induction ms arbitrary: out)
  case Nil
  then show ?case by simp
next
  case (Cons m ms)
  from Cons.prems(2) obtain r rest where r: "fixMessage m = Inr r"
    and rest: "fixedMessages ms = Inr rest"
    and out: "out = (case r of None \<Rightarrow> rest | Some fm \<Rightarrow> fm # rest)"
    by (auto split: sum.splits)
  have "list_all valid_message rest"
    using Cons.IH[OF _ rest] Cons.prems(1) by simp
  moreover have "r = Some fm \<Longrightarrow> valid_message fm" for fm
    using fixMessage_valid[of m fm] r Cons.prems(1) by simp
  ultimately show ?case
    by (simp add: out split: option.splits)
qed

lemma trim_default: "trim ''You are a helpful assistant.'' = ''You are a helpful assistant.''"
  by code_simp

lemma valid_systemMessage: "valid_message systemMessage"
  by (simp add: valid_message_def systemMessage_def valid_block_def trim_default)

lemma typeof_string: "typeof v = ''string'' \<longleftrightarrow> (\<exists>s. v = JStr s)"
  by (cases v) auto

lemma valid_item_total: "text_typed item \<Longrightarrow> \<exists>b. valid_item item = Inr b"
  by (auto simp: text_typed_def valid_item_def typeof_string)

lemma filter_items_total:
  "\<forall>item \<in> set items. text_typed item \<Longrightarrow> \<exists>kept. filter_items items = Inr kept"
proof (induction items)
  case Nil
  then show ?case by simp
next
  case (Cons item items)
  then obtain b kept where "valid_item item = Inr b" "filter_items items = Inr kept"
    using valid_item_total[of item] by auto
  then show ?case by simp
qed

lemma validContent_total:
  assumes "\<forall>item \<in> set items. text_typed item"
  shows "\<exists>valid. validContent items = Inr valid"
proof -
  from filter_items_total[OF assms] obtain kept where k: "filter_items items = Inr kept"
    by blast
  from map_items_valid[of kept] filter_items_valid[OF k] obtain ys where
    "map_items kept = Inr ys" by blast
  with k show ?thesis by (simp add: validContent_def)
qed

lemma fixMessage_total:
  assumes "\<forall>item \<in> set (elements (get_prop m ''content'')). text_typed item"
  shows "\<exists>r. fixMessage m = Inr r"
proof (cases "get_prop m ''content''")
  case (JArr items)
  with assms validContent_total[of items] obtain valid where "validContent items = Inr valid"
    by auto
  with JArr show ?thesis
    by (simp add: fixMessage_def Let_def)
qed (simp_all add: fixMessage_def Let_def)

lemma fixedMessages_total:
  "\<forall>m \<in> set ms. \<forall>item \<in> set (elements (get_prop m ''content'')). text_typed item
     \<Longrightarrow> \<exists>fixed. fixedMessages ms = Inr fixed"
proof (induction ms)
  case Nil
  then show ?case by simp
next
  case (Cons m ms)
  then obtain r fixed where "fixMessage m = Inr r" "fixedMessages ms = Inr fixed"
    using fixMessage_total[of m] by auto
  then show ?case by simp
qed

lemma handleChatMessage_total:
  assumes "\<forall>m \<in> set ms. \<forall>item \<in> set (elements (get_prop m ''content'')). text_typed item"
  shows "\<exists>out. handleChatMessage ms = Inr out"
  using fixedMessages_total[OF assms] by (auto simp: handleChatMessage_def)

subsection \<open>The reducer as a fold over parsed values\<close>

lemma readLoop_lines:
  "readLoop unsafe_proto parse d acc chunks = foldl (processLine unsafe_proto parse) acc (stream_lines d chunks)"
  by (induction chunks arbitrary: d acc) (auto split: prod.splits)

lemma processLine_value:
  "processLine unsafe_proto parse acc line =
     (case line_value parse line of None \<Rightarrow> acc | Some v \<Rightarrow> caught (applyParsed unsafe_proto acc v))"
  by (simp add: processLine_def line_value_def Let_def)

lemma foldl_processLine:
  "foldl (processLine unsafe_proto parse) acc lines = applyAll unsafe_proto acc (parsed_values parse lines)"
proof (induction lines arbitrary: acc)
  case Nil
  then show ?case by (simp add: applyAll_def parsed_values_def map_filter_simps)
next
  case (Cons l ls)
  then show ?case
    by (cases "line_value parse l")
       (simp_all add: applyAll_def parsed_values_def map_filter_simps processLine_value)
qed

lemma collect_applyAll:
  "collectStreamData unsafe_proto parse t0 t1 chunks =
     document t1 (applyAll unsafe_proto (initial t0) (parsed_values parse (stream_lines new_decoder chunks)))"
  by (simp add: collectStreamData_def readLoop_lines foldl_processLine)

lemma created_setHeader:
  "created (caught (setHeader acc v)) =
     (if \<not> nullish v \<and> truthy (get_prop v ''created'') then get_prop v ''created'' else created acc)"
  by (simp add: setHeader_def caught_def Let_def)

lemma created_addContent: "created (caught (addContent acc c)) = created acc"
  by (simp add: addContent_def caught_def Let_def split: sum.splits)

lemma created_addToolCalls: "created (caught (addToolCalls unsafe_proto acc c)) = created acc"
  by (simp add: addToolCalls_def caught_def Let_def split: sum.splits completion.splits)

lemma created_setFinishReason: "created (caught (setFinishReason acc c)) = created acc"
  by (simp add: setFinishReason_def caught_def)

lemma caught_and_then:
  "caught (and_then c f) = (case c of Normal s \<Rightarrow> caught (f s) | Thrown e s \<Rightarrow> s)"
  by (simp add: caught_def and_then_def split: completion.splits)

lemma created_applyChoice: "created (caught (applyChoice unsafe_proto acc v)) = created acc"
proof -
  have step: "created (case c of Normal s \<Rightarrow> caught (f s) | Thrown e s \<Rightarrow> s) = created a"
    if "created (caught c) = created a" and "\<And>s. created (caught (f s)) = created s"
    for c :: "accumulator completion" and f a
    using that by (cases c) (simp_all add: caught_def)
  show ?thesis
    unfolding applyChoice_def Let_def
    by (auto simp: caught_and_then caught_def[of "Normal _"]
        intro!: step created_addContent created_addToolCalls created_setFinishReason)
qed

lemma created_applyParsed:
  "created (caught (applyParsed unsafe_proto acc v)) =
     (if \<not> nullish v \<and> truthy (get_prop v ''created'') then get_prop v ''created'' else created acc)"
proof (cases "setHeader acc v")
  case (Normal s)
  then have "created s = (if \<not> nullish v \<and> truthy (get_prop v ''created'') then get_prop v ''created'' else created acc)"
    using created_setHeader[of acc v] by (simp add: caught_def)
  with Normal show ?thesis
    by (simp add: applyParsed_def caught_and_then created_applyChoice)
next
  case (Thrown e s)
  then have "caught (applyParsed unsafe_proto acc v) = caught (setHeader acc v)"
    by (simp add: applyParsed_def and_then_def caught_def)
  then show ?thesis
    by (simp only: created_setHeader)
qed

lemma created_applyAll:
  "created (applyAll unsafe_proto acc vs) =
     (if created_values vs = [] then created acc else last (created_values vs))"
proof (induction vs arbitrary: acc)
  case Nil
  then show ?case by (simp add: applyAll_def created_values_def)
next
  case (Cons v vs)
  have "applyAll unsafe_proto acc (v # vs) = applyAll unsafe_proto (caught (applyParsed unsafe_proto acc v)) vs"
    by (simp add: applyAll_def)
  then show ?case
    using Cons[of "caught (applyParsed unsafe_proto acc v)"]
    by (simp add: created_applyParsed created_values_def)
qed

subsection \<open>The decoder and the lines\<close>

lemma steady_new: "steady new_decoder"
  by (simp add: steady_def new_decoder_def)

lemma steady_after_line_feed: "steady after_line_feed"
  by (simp add: steady_def new_decoder_def after_line_feed_def)

lemma emit_cases: "emit d cp = (cp, d\<lparr>bom_seen := True\<rparr>) \<or> emit d cp = ([], d\<lparr>bom_seen := True\<rparr>)"
  by (cases d) (auto simp: emit_def)

lemma steady_bom: "steady (d\<lparr>bom_seen := b\<rparr>) = steady d"
  by (simp add: steady_def)

lemma steady_reset: "steady (reset d)"
  by (simp add: steady_def reset_def)

lemma steady_emit: "steady d \<Longrightarrow> steady (snd (emit d cp))"
  using emit_cases[of d cp] by (auto simp: steady_bom)

lemma fst_emit_set: "set (fst (emit d cp)) \<subseteq> set cp"
  using emit_cases[of d cp] by auto

lemma steady_decode_lead:
  assumes "steady d" and "bytes_needed d = 0" and "c \<noteq> CHR 0x0A"
  shows "steady (snd (decode_lead d c))"
  using assms steady_emit[OF assms(1)]
  by (auto simp: decode_lead_def Let_def steady_def)

lemma decode_lead_no_lf:
  assumes "c \<noteq> CHR 0x0A"
  shows "CHR 0x0A \<notin> set (fst (decode_lead d c))"
  using assms fst_emit_set[of d "[c]"] fst_emit_set[of d replacement]
  by (auto simp: decode_lead_def Let_def replacement_def)

lemma decode_byte_steady:
  assumes "steady d" and "c \<noteq> CHR 0x0A"
  shows "steady (snd (decode_byte d c)) \<and> CHR 0x0A \<notin> set (fst (decode_byte d c))"
proof (cases "bytes_needed d = 0")
  case True
  with assms steady_decode_lead decode_lead_no_lf show ?thesis
    by (simp add: decode_byte_def)
next
  case False
  show ?thesis
  proof (cases "(of_char c :: nat) < lower_boundary d \<or> upper_boundary d < of_char c")
    case True
    obtain r d1 where e: "emit (reset d) replacement = (r, d1)" by force
    then have d1: "steady d1" "bytes_needed d1 = 0"
      using steady_emit[OF steady_reset, of d replacement] emit_cases[of "reset d" replacement]
      by (auto simp: reset_def)
    from e have r: "CHR 0x0A \<notin> set r"
      using fst_emit_set[of "reset d" replacement] by (auto simp: replacement_def)
    from False True e d1 r assms(2) steady_decode_lead[OF d1 assms(2)] decode_lead_no_lf[OF assms(2), of d1]
    show ?thesis
      by (auto simp: decode_byte_def split: prod.splits)
  next
    case inr: False
    show ?thesis
    proof (cases "length (bytes_seen d @ [c]) = Suc (bytes_needed d)")
      case True
      with False inr assms steady_emit[OF steady_reset, of d "bytes_seen d @ [c]"]
        fst_emit_set[of "reset d" "bytes_seen d @ [c]"]
      show ?thesis
        by (auto simp: decode_byte_def Let_def steady_def)
    next
      case F: False
      with False inr assms show ?thesis
        by (auto simp: decode_byte_def Let_def steady_def)
    qed
  qed
qed

lemma decode_byte_lf:
  assumes "steady d"
  shows "\<exists>r. decode_byte d (CHR 0x0A) = (r @ [CHR 0x0A], after_line_feed) \<and> CHR 0x0A \<notin> set r"
proof (cases "bytes_needed d = 0")
  case True
  with assms have "d\<lparr>bom_seen := True\<rparr> = after_line_feed"
    by (cases d) (simp add: steady_def after_line_feed_def new_decoder_def)
  with True show ?thesis
    by (cases d) (auto simp: decode_byte_def decode_lead_def emit_def byte_order_mark_def)
next
  case False
  from assms have "(of_char (CHR 0x0A) :: nat) < lower_boundary d"
    by (simp add: steady_def)
  moreover have "emit (reset d) replacement = (replacement, after_line_feed)"
    by (cases d) (auto simp: emit_def reset_def after_line_feed_def new_decoder_def
        replacement_def byte_order_mark_def)
  moreover have "decode_lead after_line_feed (CHR 0x0A) = ([CHR 0x0A], after_line_feed)"
    by (simp add: decode_lead_def emit_def after_line_feed_def new_decoder_def)
  ultimately show ?thesis using False
    by (auto simp: decode_byte_def replacement_def)
qed

lemma decode_append:
  "decode d (xs @ ys) =
     (let (x, d1) = decode d xs; (y, d2) = decode d1 ys in (x @ y, d2))"
  by (induction xs arbitrary: d) (auto split: prod.splits)

lemma decode_steady:
  assumes "steady d"
  shows "steady (snd (decode d cs))"
  using assms
proof (induction cs arbitrary: d)
  case Nil
  then show ?case by simp
next
  case (Cons c cs)
  have "steady (snd (decode_byte d c))"
  proof (cases "c = CHR 0x0A")
    case True
    with decode_byte_lf[OF Cons.prems] steady_after_line_feed show ?thesis by auto
  next
    case False
    with decode_byte_steady[OF Cons.prems] show ?thesis by simp
  qed
  from Cons.IH[OF this] show ?case
    by (auto split: prod.splits)
qed

lemma decode_no_lf:
  assumes "steady d" and "CHR 0x0A \<notin> set cs"
  shows "CHR 0x0A \<notin> set (fst (decode d cs))"
  using assms
proof (induction cs arbitrary: d)
  case Nil
  then show ?case by simp
next
  case (Cons c cs)
  then have c: "c \<noteq> CHR 0x0A" by auto
  from decode_byte_steady[OF Cons.prems(1) c] Cons.IH[of "snd (decode_byte d c)"] Cons.prems(2)
  show ?case
    by (auto split: prod.splits)
qed

text \<open>A line of bytes that a line feed ends, read by a decoder that is between sequences or not.\<close>

lemma decode_line:
  assumes "steady d" and "CHR 0x0A \<notin> set bytes"
  shows "\<exists>t. decode d (bytes @ [CHR 0x0A]) = (t @ [CHR 0x0A], after_line_feed)
             \<and> CHR 0x0A \<notin> set t"
proof -
  obtain x d1 where x: "decode d bytes = (x, d1)" by force
  with decode_steady[OF assms(1), of bytes] decode_no_lf[OF assms] have
    d1: "steady d1" and nx: "CHR 0x0A \<notin> set x" by auto
  from decode_byte_lf[OF d1] obtain r where
    r: "decode_byte d1 (CHR 0x0A) = (r @ [CHR 0x0A], after_line_feed)" "CHR 0x0A \<notin> set r"
    by blast
  have "decode d (bytes @ [CHR 0x0A]) = ((x @ r) @ [CHR 0x0A], after_line_feed)"
    by (simp add: decode_append x r)
  with nx r(2) show ?thesis by (intro exI[of _ "x @ r"]) simp
qed

lemma line_text:
  assumes "CHR 0x0A \<notin> set bytes"
  shows "decode after_line_feed (bytes @ [CHR 0x0A]) = (line_text bytes @ [CHR 0x0A], after_line_feed)"
    and "CHR 0x0A \<notin> set (line_text bytes)"
  using decode_line[OF steady_after_line_feed assms] by (auto simp: line_text_def)

lemma split_lines_nonempty: "split_lines s \<noteq> []"
  by (induction s) (auto split: list.splits)

lemma split_lines_append:
  "split_lines (a @ CHR 0x0A # b) = split_lines a @ split_lines b"
proof (induction a)
  case Nil
  then show ?case by simp
next
  case (Cons c a)
  then show ?case
    using split_lines_nonempty[of a]
    by (cases "split_lines a") auto
qed

lemma split_lines_single: "CHR 0x0A \<notin> set s \<Longrightarrow> split_lines s = [s]"
  by (induction s) auto

lemma stream_lines_append:
  "stream_lines d (xs @ ys) = stream_lines d xs @ stream_lines (snd (decode d (concat xs))) ys"
proof (induction xs arbitrary: d)
  case Nil
  then show ?case by simp
next
  case (Cons x xs)
  then show ?case
    by (simp add: decode_append split: prod.splits)
qed

lemma malformed_line_in_chunk:
  assumes "CHR 0x0A \<notin> set bad"
    and "prefix ''data: '' (line_text bad)"
    and "parse (trim (drop 6 (line_text bad))) = None"
  shows "collectStreamData unsafe_proto parse started finished
           (earlier @ [pre @ CHR 0x0A # bad @ CHR 0x0A # post] @ later)
       = collectStreamData unsafe_proto parse started finished
           (earlier @ [pre @ CHR 0x0A # post] @ later)"
proof -
  define d where "d = snd (decode new_decoder (concat earlier))"
  have sd: "steady d"
    unfolding d_def by (rule decode_steady[OF steady_new])
  obtain x d1 where x: "decode d pre = (x, d1)" by force
  with decode_steady[OF sd, of pre] have d1: "steady d1" by simp
  from decode_byte_lf[OF d1] obtain r where
    r: "decode_byte d1 (CHR 0x0A) = (r @ [CHR 0x0A], after_line_feed)"
    by blast
  define t where "t = x @ r"
  obtain q d3 where q: "decode after_line_feed post = (q, d3)" by force
  have with_bad: "decode d (pre @ CHR 0x0A # bad @ CHR 0x0A # post)
      = (t @ CHR 0x0A # line_text bad @ CHR 0x0A # q, d3)"
    using decode_append[of d pre "CHR 0x0A # bad @ CHR 0x0A # post"]
      decode_append[of after_line_feed "bad @ [CHR 0x0A]" post] line_text(1)[OF assms(1)]
    by (simp add: x r q t_def)
  have without: "decode d (pre @ CHR 0x0A # post) = (t @ CHR 0x0A # q, d3)"
    using decode_append[of d pre "CHR 0x0A # post"] by (simp add: x r q t_def)
  let ?before = "stream_lines new_decoder earlier @ split_lines t"
  let ?after = "split_lines q @ stream_lines d3 later"
  have 1: "stream_lines new_decoder (earlier @ [pre @ CHR 0x0A # bad @ CHR 0x0A # post] @ later)
      = ?before @ [line_text bad] @ ?after"
    by (simp add: stream_lines_append d_def[symmetric] with_bad split_lines_append
        split_lines_single[OF line_text(2)[OF assms(1)]])
  have 2: "stream_lines new_decoder (earlier @ [pre @ CHR 0x0A # post] @ later)
      = ?before @ ?after"
    by (simp add: stream_lines_append d_def[symmetric] without split_lines_append)
  have "line_value parse (line_text bad) = None"
    using assms(3) by (simp add: line_value_def)
  then have "parsed_values parse (?before @ [line_text bad] @ ?after)
      = parsed_values parse (?before @ ?after)"
    by (simp add: parsed_values_def map_filter_def)
  then show ?thesis
    by (simp only: collect_applyAll 1 2)
qed

lemma line_text_ascii:
  assumes "\<forall>c \<in> set bytes. (of_char c :: nat) < 0x80" and "CHR 0x0A \<notin> set bytes"
  shows "line_text bytes = bytes"
proof -
  have "decode after_line_feed bs = (bs, after_line_feed)"
    if "\<forall>c \<in> set bs. (of_char c :: nat) < 0x80" for bs
    using that
    by (induction bs)
       (auto simp: decode_byte_def decode_lead_def emit_def after_line_feed_def new_decoder_def)
  from this[of "bytes @ [CHR 0x0A]"] assms(1) show ?thesis
    by (simp add: line_text_def)
qed

lemma decode_ends_with_lf:
  assumes "steady d" and "c \<noteq> []" and "last c = CHR 0x0A"
  shows "\<exists>t. decode d c = (t @ [CHR 0x0A], after_line_feed)"
proof -
  from assms(2,3) obtain b where c: "c = b @ [CHR 0x0A]"
    by (metis append_butlast_last_id)
  obtain x d1 where x: "decode d b = (x, d1)" by force
  with decode_steady[OF assms(1), of b] have "steady d1" by simp
  from decode_byte_lf[OF this] obtain r where
    "decode_byte d1 (CHR 0x0A) = (r @ [CHR 0x0A], after_line_feed)" by blast
  then have "decode d c = ((x @ r) @ [CHR 0x0A], after_line_feed)"
    by (simp add: c decode_append x)
  then show ?thesis by blast
qed

lemma parsed_values_append:
  "parsed_values parse (xs @ ys) = parsed_values parse xs @ parsed_values parse ys"
  by (simp add: parsed_values_def map_filter_def)

lemma line_value_empty: "line_value parse [] = None"
  by (simp add: line_value_def)

lemma parsed_values_empty_line: "parsed_values parse ([] # ls) = parsed_values parse ls"
  by (simp add: parsed_values_def map_filter_simps line_value_empty)

lemma split_lines_snoc_lf: "split_lines (t @ [CHR 0x0A]) = split_lines t @ [[]]"
  using split_lines_append[of t "[]"] by simp

lemma aligned_chunks_lines:
  assumes "steady d" and "\<forall>c \<in> set chunks. c \<noteq> [] \<and> last c = CHR 0x0A"
  shows "parsed_values parse (stream_lines d chunks)
       = parsed_values parse (split_lines (fst (decode d (concat chunks))))"
  using assms
proof (induction chunks arbitrary: d)
  case Nil
  then show ?case by (simp add: parsed_values_empty_line)
next
  case (Cons c chunks)
  from decode_ends_with_lf[OF Cons.prems(1), of c] Cons.prems(2) obtain t where
    t: "decode d c = (t @ [CHR 0x0A], after_line_feed)" by auto
  obtain y d2 where y: "decode after_line_feed (concat chunks) = (y, d2)" by force
  have ih: "parsed_values parse (stream_lines after_line_feed chunks)
       = parsed_values parse (split_lines y)"
    using Cons.IH[OF steady_after_line_feed] Cons.prems(2) y by simp
  have "parsed_values parse (stream_lines d (c # chunks))
      = parsed_values parse (split_lines t) @ parsed_values parse (split_lines y)"
    by (simp add: t split_lines_snoc_lf parsed_values_append parsed_values_empty_line ih)
  moreover have "fst (decode d (concat (c # chunks))) = t @ CHR 0x0A # y"
    by (simp add: decode_append t y)
  ultimately show ?case
    by (simp add: split_lines_append parsed_values_append)
qed

lemma aligned_chunks:
  assumes "\<forall>c \<in> set chunks. c \<noteq> [] \<and> last c = CHR 0x0A"
  shows "collectStreamData unsafe_proto parse started finished chunks
       = collectStreamData unsafe_proto parse started finished [concat chunks]"
proof -
  have "parsed_values parse (stream_lines new_decoder [concat chunks])
      = parsed_values parse (split_lines (fst (decode new_decoder (concat chunks))))"
    by (simp split: prod.splits)
  with aligned_chunks_lines[OF steady_new assms, of parse] show ?thesis
    by (simp only: collect_applyAll)
qed

subsection \<open>Tool calls\<close>

lemma js_add_strings: "js_add (JStr a) (JStr b) = Inr (JStr (a @ b))"
  by (simp add: js_add_def to_primitive_def)

lemma read_put_same: "read_slot (put_slot calls (Index n) c) (Index n) = Entry c"
  by (simp add: nth_append)

lemma get_slot_Index: "get_slot unsafe_proto calls (Index n) = read_slot calls (Index n)"
  by (simp add: get_slot_def)

lemma toolStep_start:
  assumes "is_start tc" and "tool_key tc = Inr (Index n)"
  shows "toolStep unsafe_proto calls tc = Inr (put_slot calls (Index n)
           \<lparr>tc_id = get_prop tc ''id'', tc_type = get_prop tc ''type'',
            tc_name = or_else (get_prop (get_prop tc ''function'') ''name'') (JStr ''''),
            tc_arguments = or_else (get_prop (get_prop tc ''function'') ''arguments'') (JStr '''')\<rparr>)"
  using assms by (simp add: toolStep_def is_start_def tool_key_def Let_def assign_slot_def)

lemma toolStep_continuation:
  assumes "continuation n tc frag" and "read_slot calls (Index n) = Entry c"
    and "tc_arguments c = JStr a"
  shows "\<exists>c'. toolStep unsafe_proto calls tc = Inr (put_slot calls (Index n) c')
           \<and> tc_arguments c' = JStr (a @ frag)"
proof -
  from assms(1) have fn: "truthy (get_prop tc ''function'')"
    by (cases "get_prop tc ''function''") (auto simp: continuation_def split: if_splits)
  with assms show ?thesis
    by (auto simp: toolStep_def continuation_def is_start_def tool_key_def Let_def js_add_strings
        update_entry_def get_slot_Index)
qed

lemma elems_update_held: "elems (update_held calls k t) = elems calls"
  by (simp add: update_held_def)

lemma elems_put_slot_Name: "elems (put_slot calls (Name s) c) = elems calls"
  by simp

lemma elems_update_entry_Name: "elems (update_entry unsafe_proto calls (Name s) c) = elems calls"
  by (simp add: update_entry_def)

lemma update_entry_Index: "update_entry unsafe_proto calls (Index n) c = put_slot calls (Index n) c"
  by (simp add: update_entry_def)

lemma elems_assign_slot_Name:
  "assign_slot unsafe_proto calls (Name s) c = Inr calls' \<Longrightarrow> elems calls' = elems calls"
  by (auto simp: assign_slot_def split: if_splits)

lemma toolStep_cases:
  assumes "toolStep unsafe_proto calls tc = Inr calls'"
  shows "elems calls' = elems calls
       \<or> (\<exists>n c. is_start tc \<and> tool_key tc = Inr (Index n) \<and> calls' = put_slot calls (Index n) c)
       \<or> (\<exists>n c c'. \<not> is_start tc \<and> read_slot calls (Index n) = Entry c
              \<and> calls' = put_slot calls (Index n) c')"
proof (cases "tool_key tc")
  case (Inl e)
  with assms show ?thesis
    by (auto simp: toolStep_def Let_def tool_key_def split: if_splits)
next
  case (Inr k)
  show ?thesis
  proof (cases k)
    case (Name s)
    with Inr assms have "elems calls' = elems calls"
      by (auto simp: toolStep_def Let_def tool_key_def elems_update_held elems_update_entry_Name
          dest: elems_assign_slot_Name split: if_splits sum.splits slot.splits)
    then show ?thesis by simp
  next
    case (Index n)
    with Inr assms show ?thesis
      by (auto simp: toolStep_def Let_def tool_key_def is_start_def assign_slot_def
          update_entry_Index get_slot_Index split: if_splits sum.splits slot.splits option.splits)
  qed
qed


lemma put_slot_no_trailing_hole:
  assumes "no_trailing_hole calls"
  shows "no_trailing_hole (put_slot calls (Index n) c)"
proof (cases "n < length (elems calls)")
  case True
  then have ne: "elems calls \<noteq> []" by auto
  with assms have "last (elems calls) \<noteq> None" by (simp add: no_trailing_hole_def)
  with True ne show ?thesis
    by (simp add: no_trailing_hole_def last_list_update)
next
  case False
  then show ?thesis by (simp add: no_trailing_hole_def)
qed

lemma toolStep_no_trailing_hole:
  assumes "toolStep unsafe_proto calls tc = Inr calls'" and "no_trailing_hole calls"
  shows "no_trailing_hole calls'"
proof -
  from toolStep_cases[OF assms(1)] consider
      "elems calls' = elems calls"
    | n c where "calls' = put_slot calls (Index n) c"
    by blast
  then show ?thesis
  proof cases
    case 1
    with assms(2) show ?thesis by (simp add: no_trailing_hole_def)
  next
    case 2
    with assms(2) show ?thesis by (simp only: put_slot_no_trailing_hole)
  qed
qed

lemma put_slot_holes_below_start:
  assumes "holes_below k calls" and "k \<le> n"
  shows "holes_below k (put_slot calls (Index n) c)"
  using assms by (auto simp: holes_below_def nth_append nth_list_update)

lemma put_slot_holes_below_entry:
  assumes "holes_below k calls" and "read_slot calls (Index n) = Entry c"
  shows "holes_below k (put_slot calls (Index n) c')"
proof -
  from assms(2) have n: "n < length (elems calls)" "elems calls ! n \<noteq> None"
    by (auto split: if_splits option.splits)
  with assms(1) have "k \<le> n" by (auto simp: holes_below_def not_less[symmetric])
  with assms(1) n show ?thesis
    by (auto simp: holes_below_def nth_list_update)
qed

lemma toolStep_holes_below:
  assumes "toolStep unsafe_proto calls tc = Inr calls'" and "holes_below k calls"
    and "is_start tc \<longrightarrow> (\<forall>n. tool_key tc = Inr (Index n) \<longrightarrow> k \<le> n)"
  shows "holes_below k calls'"
proof -
  from toolStep_cases[OF assms(1)] consider
      "elems calls' = elems calls"
    | n c where "is_start tc" "tool_key tc = Inr (Index n)" "calls' = put_slot calls (Index n) c"
    | n c c' where "read_slot calls (Index n) = Entry c" "calls' = put_slot calls (Index n) c'"
    by blast
  then show ?thesis
  proof cases
    case 1
    with assms(2) show ?thesis by (simp add: holes_below_def)
  next
    case 2
    with assms(3) have "k \<le> n" by simp
    with 2 assms(2) show ?thesis by (simp only: put_slot_holes_below_start)
  next
    case 3
    with assms(2) show ?thesis by (simp only: put_slot_holes_below_entry)
  qed
qed

text \<open>A turn of the loop takes no entry away.\<close>

lemma populated_put_slot:
  "populated calls \<subseteq> populated (put_slot calls (Index n) c)"
  by (auto simp: populated_def nth_append nth_list_update)

lemma populated_put_slot_at: "n \<in> populated (put_slot calls (Index n) c)"
  by (simp add: populated_def nth_append)

lemma toolStep_populated:
  assumes "toolStep unsafe_proto calls tc = Inr calls'" and "populated calls \<noteq> {}"
  shows "populated calls' \<noteq> {}"
proof -
  from toolStep_cases[OF assms(1)] consider
      "elems calls' = elems calls"
    | n c where "calls' = put_slot calls (Index n) c"
    by blast
  then show ?thesis
  proof cases
    case 1
    with assms(2) show ?thesis by (simp add: populated_def)
  next
    case 2
    with assms(2) populated_put_slot[of calls n c] show ?thesis by auto
  qed
qed


text \<open>A property of the array that every turn keeps is kept by the whole fold.\<close>

lemma forToolCalls_invariant:
  assumes "\<And>calls tc calls'. P calls \<Longrightarrow> Q tc \<Longrightarrow> toolStep unsafe_proto calls tc = Inr calls' \<Longrightarrow> P calls'"
    and "P calls" and "\<forall>tc \<in> set tcs. Q tc"
  shows "P (caught (forToolCalls unsafe_proto calls tcs))"
  using assms(2,3)
proof (induction tcs arbitrary: calls)
  case Nil
  then show ?case by (simp add: caught_def)
next
  case (Cons tc tcs)
  show ?case
  proof (cases "toolStep unsafe_proto calls tc")
    case (Inl e)
    with Cons.prems show ?thesis by (simp add: caught_def)
  next
    case (Inr calls1)
    with Cons.prems assms(1)[of calls tc calls1] have "P calls1" by simp
    with Cons.IH[of calls1] Cons.prems Inr show ?thesis by simp
  qed
qed

text \<open>
  A line whose first tool-call delta starts a tool call reaches the loop of line 181:
  every test on the way there holds.
\<close>

lemma get_prop_object:
  assumes "get_prop x k = JObj ps \<or> get_prop x k = JArr xs"
  shows "\<exists>qs. x = JObj qs"
  using assms by (cases x) (auto split: if_splits)

lemma get_index_object:
  assumes "get_index x n = JObj ps"
  shows "truthy x"
  using assms by (cases x) (auto split: if_splits)

lemma start_no_string: "\<not> is_start (JStr s)"
  by (simp add: is_start_def)

lemma tool_deltas_start:
  assumes "tool_deltas v = tc # rest" and "is_start tc"
  defines "choice \<equiv> get_index (get_prop v ''choices'') 0"
  defines "delta \<equiv> get_prop choice ''delta''"
  shows "\<not> nullish v" and "truthy (get_prop v ''choices'')" and "truthy choice"
    and "truthy delta" and "get_prop delta ''tool_calls'' = JArr (tc # rest)"
proof -
  from assms(1) have it: "iterate (get_prop delta ''tool_calls'') = Inr (tc # rest)"
    by (simp add: tool_deltas_def delta_def choice_def split: sum.splits)
  show arr: "get_prop delta ''tool_calls'' = JArr (tc # rest)"
  proof (cases "get_prop delta ''tool_calls''")
    case (JStr s)
    with it assms(2) show ?thesis by (auto simp: start_no_string)
  qed (use it in auto)
  from get_prop_object[of delta "''tool_calls''"] arr obtain ds where ds: "delta = JObj ds"
    by auto
  then show "truthy delta" by simp
  from get_prop_object[of choice "''delta''"] ds obtain cs where cs: "choice = JObj cs"
    by (auto simp: delta_def)
  then show "truthy choice" by simp
  from cs show ch: "truthy (get_prop v ''choices'')"
    using get_index_object[of "get_prop v ''choices''" 0 cs] by (simp add: choice_def)
  then show "\<not> nullish v" by (cases v) auto
qed

lemma js_add_string_left:
  assumes "to_primitive x = Inr p"
  shows "\<exists>s'. js_add (JStr s) x = Inr (JStr s')"
proof -
  have "\<exists>r. to_string p = Inr r"
    using assms by (cases x) (auto simp: to_primitive_def to_string.simps split: sum.splits)
  then show ?thesis
    using assms by (auto simp: js_add_def to_primitive_def typeof.simps)
qed

lemma toolCalls_applyParsed_delta:
  "toolCalls (caught (applyParsed unsafe_proto acc (tool_call_delta tc))) =
     (case toolStep unsafe_proto (toolCalls acc) tc of Inl e \<Rightarrow> toolCalls acc | Inr calls \<Rightarrow> calls)"
  by (simp add: applyParsed_def setHeader_def applyChoice_def addContent_def addToolCalls_def
      setFinishReason_def tool_call_delta_def and_then_def caught_def Let_def greater_zero_def
      to_number_def to_primitive_def split: sum.splits)

lemma arguments_after_continuations:
  assumes "list_all2 (continuation n) conts frags"
    and "arguments_at (toolCalls acc) n = Some (JStr a)"
  shows "arguments_at (toolCalls (applyAll unsafe_proto acc (map tool_call_delta conts))) n
           = Some (JStr (a @ concat frags))"
  using assms
proof (induction conts frags arbitrary: acc a rule: list_all2_induct)
  case Nil
  then show ?case by (simp add: applyAll_def)
next
  case (Cons tc conts frag frags)
  from Cons.prems obtain c where c: "read_slot (toolCalls acc) (Index n) = Entry c"
    "tc_arguments c = JStr a"
    by (auto simp: arguments_at_def split: slot.splits)
  from toolStep_continuation[OF Cons.hyps(1) c] obtain c' where
    c': "toolStep unsafe_proto (toolCalls acc) tc = Inr (put_slot (toolCalls acc) (Index n) c')"
    "tc_arguments c' = JStr (a @ frag)"
    by blast
  let ?acc1 = "caught (applyParsed unsafe_proto acc (tool_call_delta tc))"
  have "arguments_at (toolCalls ?acc1) n = Some (JStr (a @ frag))"
    unfolding toolCalls_applyParsed_delta c' arguments_at_def
    by (simp only: sum.case read_put_same slot.case c')
  from Cons.IH[OF this] show ?case
    by (simp add: applyAll_def)
qed

lemma toolCalls_addToolCalls:
  "toolCalls (caught (addToolCalls unsafe_proto acc choice)) = toolCalls acc
   \<or> (\<exists>tcs. iterate (get_prop (get_prop choice ''delta'') ''tool_calls'') = Inr tcs
        \<and> toolCalls (caught (addToolCalls unsafe_proto acc choice)) = caught (forToolCalls unsafe_proto (toolCalls acc) tcs))"
  by (auto simp: addToolCalls_def Let_def caught_def split: sum.splits completion.splits)

lemma toolCalls_addContent: "toolCalls (caught (addContent acc c)) = toolCalls acc"
  by (simp add: addContent_def caught_def Let_def split: sum.splits)

lemma toolCalls_setFinishReason: "toolCalls (caught (setFinishReason acc c)) = toolCalls acc"
  by (simp add: setFinishReason_def caught_def)

lemma toolCalls_setHeader: "toolCalls (caught (setHeader acc v)) = toolCalls acc"
  by (simp add: setHeader_def caught_def Let_def)

lemma toolCalls_applyParsed:
  "toolCalls (caught (applyParsed unsafe_proto acc v)) = toolCalls acc
   \<or> toolCalls (caught (applyParsed unsafe_proto acc v)) = caught (forToolCalls unsafe_proto (toolCalls acc) (tool_deltas v))"
proof (cases "setHeader acc v")
  case (Thrown e s)
  then have "caught (applyParsed unsafe_proto acc v) = caught (setHeader acc v)"
    by (simp add: applyParsed_def and_then_def caught_def)
  then show ?thesis by (simp add: toolCalls_setHeader)
next
  case (Normal a1)
  then have a1: "toolCalls a1 = toolCalls acc"
    using toolCalls_setHeader[of acc v] by (simp add: caught_def)
  show ?thesis
  proof (cases "truthy (get_prop v ''choices'') \<and> truthy (get_index (get_prop v ''choices'') 0)")
    case False
    with Normal a1 show ?thesis
      by (auto simp: applyParsed_def and_then_def applyChoice_def caught_def)
  next
    case True
    define ch where "ch = get_index (get_prop v ''choices'') 0"
    have ap: "caught (applyParsed unsafe_proto acc v) =
        caught (and_then (addContent a1 ch)
          (\<lambda>acc1. and_then (addToolCalls unsafe_proto acc1 ch) (\<lambda>acc2. setFinishReason acc2 ch)))"
      using True Normal by (simp add: applyParsed_def and_then_def applyChoice_def ch_def Let_def)
    show ?thesis
    proof (cases "addContent a1 ch")
      case (Thrown e s)
      with ap toolCalls_addContent[of a1 ch] a1 show ?thesis
        by (simp add: and_then_def caught_def)
    next
      case N2: (Normal a2)
      then have a2: "toolCalls a2 = toolCalls acc"
        using toolCalls_addContent[of a1 ch] a1 by (simp add: caught_def)
      have "toolCalls (caught (applyParsed unsafe_proto acc v)) = toolCalls (caught (addToolCalls unsafe_proto a2 ch))"
      proof (cases "addToolCalls unsafe_proto a2 ch")
        case (Thrown e s)
        with ap N2 show ?thesis by (simp add: and_then_def caught_def)
      next
        case N3: (Normal a3)
        with ap N2 show ?thesis
          using toolCalls_setFinishReason[of a3 ch] by (simp add: and_then_def caught_def)
      qed
      with toolCalls_addToolCalls[of unsafe_proto a2 ch] a2 show ?thesis
        by (auto simp: tool_deltas_def ch_def)
    qed
  qed
qed

lemma applyAll_invariant:
  assumes "\<And>calls tc calls'. P calls \<Longrightarrow> Q tc \<Longrightarrow> toolStep unsafe_proto calls tc = Inr calls' \<Longrightarrow> P calls'"
    and "P (toolCalls acc)" and "\<forall>v \<in> set vs. \<forall>tc \<in> set (tool_deltas v). Q tc"
  shows "P (toolCalls (applyAll unsafe_proto acc vs))"
  using assms(2,3)
proof (induction vs arbitrary: acc)
  case Nil
  then show ?case by (simp add: applyAll_def)
next
  case (Cons v vs)
  have "P (toolCalls (caught (applyParsed unsafe_proto acc v)))"
    using toolCalls_applyParsed[of unsafe_proto acc v] Cons.prems
      forToolCalls_invariant[where P = P and Q = Q and calls = "toolCalls acc" and tcs = "tool_deltas v",
        OF assms(1)]
    by auto
  from Cons.IH[OF this] Cons.prems(2) show ?case
    by (simp add: applyAll_def)
qed

lemma content_setHeader: "content (caught (setHeader acc v)) = content acc"
  by (simp add: setHeader_def caught_def Let_def)

lemma content_addToolCalls: "content (caught (addToolCalls unsafe_proto acc c)) = content acc"
  by (simp add: addToolCalls_def caught_def Let_def split: sum.splits completion.splits)

lemma content_setFinishReason: "content (caught (setFinishReason acc c)) = content acc"
  by (simp add: setFinishReason_def caught_def)

lemma js_add_string_result:
  assumes "js_add (JStr s) x = Inr r"
  shows "\<exists>s'. r = JStr s'"
  using assms by (auto simp: js_add_def to_primitive_def split: sum.splits if_splits)

lemma content_addContent:
  assumes "\<exists>s. content acc = JStr s"
  shows "\<exists>s. content (caught (addContent acc c)) = JStr s"
  using assms
  by (auto simp: addContent_def caught_def Let_def dest: js_add_string_result split: sum.splits)

lemma content_applyChoice:
  assumes "\<exists>s. content acc = JStr s"
  shows "\<exists>s. content (caught (applyChoice unsafe_proto acc v)) = JStr s"
proof (cases "truthy (get_prop v ''choices'') \<and> truthy (get_index (get_prop v ''choices'') 0)")
  case False
  with assms show ?thesis by (auto simp: applyChoice_def caught_def)
next
  case True
  define ch where "ch = get_index (get_prop v ''choices'') 0"
  have ap: "caught (applyChoice unsafe_proto acc v) =
      caught (and_then (addContent acc ch)
        (\<lambda>acc1. and_then (addToolCalls unsafe_proto acc1 ch) (\<lambda>acc2. setFinishReason acc2 ch)))"
    using True by (simp add: applyChoice_def ch_def Let_def)
  show ?thesis
  proof (cases "addContent acc ch")
    case (Thrown e a)
    with ap content_addContent[OF assms, of ch] show ?thesis
      by (simp add: and_then_def caught_def)
  next
    case N1: (Normal a1)
    with content_addContent[OF assms, of ch] have a1: "\<exists>s. content a1 = JStr s"
      by (simp add: caught_def)
    show ?thesis
    proof (cases "addToolCalls unsafe_proto a1 ch")
      case (Thrown e a)
      with ap N1 a1 content_addToolCalls[of unsafe_proto a1 ch] show ?thesis
        by (simp add: and_then_def caught_def)
    next
      case N2: (Normal a2)
      with a1 content_addToolCalls[of unsafe_proto a1 ch] have "\<exists>s. content a2 = JStr s"
        by (simp add: caught_def)
      with ap N1 N2 content_setFinishReason[of a2 ch] show ?thesis
        by (simp add: and_then_def)
    qed
  qed
qed

lemma content_applyParsed:
  assumes "\<exists>s. content acc = JStr s"
  shows "\<exists>s. content (caught (applyParsed unsafe_proto acc v)) = JStr s"
proof (cases "setHeader acc v")
  case (Normal a1)
  with assms content_setHeader[of acc v] have "\<exists>s. content a1 = JStr s"
    by (simp add: caught_def)
  with Normal show ?thesis
    by (simp add: applyParsed_def caught_and_then content_applyChoice)
next
  case (Thrown e a)
  with assms content_setHeader[of acc v] show ?thesis
    by (simp add: applyParsed_def and_then_def caught_def)
qed

lemma content_applyAll:
  assumes "\<exists>s. content acc = JStr s"
  shows "\<exists>s. content (applyAll unsafe_proto acc vs) = JStr s"
  using assms
proof (induction vs arbitrary: acc)
  case Nil
  then show ?case by (simp add: applyAll_def)
next
  case (Cons v vs)
  from Cons.IH[OF content_applyParsed[OF Cons.prems, of unsafe_proto v]] show ?case
    by (simp add: applyAll_def)
qed

text \<open>Such a line, applied to any accumulator, goes through its tool-call deltas.\<close>

lemma opens_tool_call_applyParsed:
  assumes "opens_tool_call v" and "\<exists>s. content acc = JStr s"
  shows "toolCalls (caught (applyParsed unsafe_proto acc v))
           = caught (forToolCalls unsafe_proto (toolCalls acc) (tool_deltas v))"
proof -
  define ch where "ch = get_index (get_prop v ''choices'') 0"
  define delta where "delta = get_prop ch ''delta''"
  from assms(1) obtain tc rest where td: "tool_deltas v = tc # rest" and "array_start tc"
    by (auto simp: opens_tool_call_def split: list.splits)
  then have st: "is_start tc" by (simp add: array_start_def)
  note reach = tool_deltas_start[OF td st, folded ch_def, folded delta_def]
  from assms(1) obtain p where prim: "to_primitive (get_prop delta ''content'') = Inr p"
    by (auto simp: opens_tool_call_def ch_def delta_def split: sum.splits)
  from reach(1) obtain a1 where a1: "setHeader acc v = Normal a1"
    "content a1 = content acc" "toolCalls a1 = toolCalls acc"
    by (simp add: setHeader_def Let_def)
  from assms(2) a1(2) obtain s where s: "content a1 = JStr s" by auto
  from js_add_string_left[OF prim, of s] obtain s' where
    add: "js_add (JStr s) (get_prop delta ''content'') = Inr (JStr s')" by blast
  have "\<exists>a2. addContent a1 ch = Normal a2 \<and> toolCalls a2 = toolCalls acc"
    using a1(3) s add by (simp add: addContent_def Let_def delta_def[symmetric])
  then obtain a2 where a2: "addContent a1 ch = Normal a2" "toolCalls a2 = toolCalls acc"
    by blast
  have gz: "greater_zero (get_prop (get_prop delta ''tool_calls'') ''length'') = Inr True"
    by (simp add: reach(5) greater_zero_def to_number_def to_primitive_def)
  have it: "iterate (get_prop delta ''tool_calls'') = Inr (tc # rest)"
    by (simp add: reach(5))
  have tr: "truthy (get_prop delta ''tool_calls'')"
    by (simp add: reach(5))
  have tools: "toolCalls (caught (addToolCalls unsafe_proto a2 ch))
                 = caught (forToolCalls unsafe_proto (toolCalls acc) (tc # rest))"
    unfolding addToolCalls_def Let_def delta_def[symmetric]
    using reach(4) a2(2) tr
    by (simp add: gz it caught_def split: completion.splits)
  have "toolCalls (caught (applyParsed unsafe_proto acc v)) = toolCalls (caught (addToolCalls unsafe_proto a2 ch))"
  proof (cases "addToolCalls unsafe_proto a2 ch")
    case (Thrown e a)
    with a1(1) a2(1) reach(2,3) show ?thesis
      by (simp add: applyParsed_def applyChoice_def and_then_def caught_def ch_def[symmetric]
          Let_def)
  next
    case (Normal a3)
    with a1(1) a2(1) reach(2,3) show ?thesis
      by (simp add: applyParsed_def applyChoice_def and_then_def caught_def ch_def[symmetric]
          Let_def setFinishReason_def)
  qed
  with tools td show ?thesis by simp
qed

lemma opens_tool_call_populated:
  assumes "opens_tool_call v" and "\<exists>s. content acc = JStr s"
  shows "populated (toolCalls (caught (applyParsed unsafe_proto acc v))) \<noteq> {}"
proof -
  from assms(1) obtain tc rest where td: "tool_deltas v = tc # rest" and "array_start tc"
    by (auto simp: opens_tool_call_def split: list.splits)
  then obtain n where st: "is_start tc" and key: "tool_key tc = Inr (Index n)"
    by (auto simp: array_start_def split: sum.splits pkey.splits)
  define c where "c = \<lparr>tc_id = get_prop tc ''id'', tc_type = get_prop tc ''type'',
            tc_name = or_else (get_prop (get_prop tc ''function'') ''name'') (JStr ''''),
            tc_arguments = or_else (get_prop (get_prop tc ''function'') ''arguments'') (JStr '''')\<rparr>"
  have step: "toolStep unsafe_proto (toolCalls acc) tc = Inr (put_slot (toolCalls acc) (Index n) c)"
    unfolding c_def by (rule toolStep_start[OF st key])
  have "populated (caught (forToolCalls unsafe_proto (put_slot (toolCalls acc) (Index n) c) rest)) \<noteq> {}"
  proof (rule forToolCalls_invariant[where P = "\<lambda>calls. populated calls \<noteq> {}"
        and Q = "\<lambda>tc. True"])
    show "populated (put_slot (toolCalls acc) (Index n) c) \<noteq> {}"
      using populated_put_slot_at[of n "toolCalls acc" c] by auto
    show "populated calls' \<noteq> {}"
      if "populated calls \<noteq> {}" and "toolStep unsafe_proto calls tc = Inr calls'" for calls tc calls'
      using that(2,1) by (rule toolStep_populated)
    show "\<forall>tc \<in> set rest. True" by simp
  qed
  then show ?thesis
    by (simp add: opens_tool_call_applyParsed[OF assms] td step)
qed

lemma opening_line_populated:
  assumes "v \<in> set vs" and "opens_tool_call v"
  shows "populated (toolCalls (applyAll unsafe_proto (initial started) vs)) \<noteq> {}"
proof -
  from assms(1) obtain xs ys where vs: "vs = xs @ v # ys"
    by (auto dest: split_list)
  let ?before = "applyAll unsafe_proto (initial started) xs"
  have "\<exists>s. content ?before = JStr s"
    by (rule content_applyAll) (simp add: initial_def)
  from opens_tool_call_populated[OF assms(2) this]
  have after: "populated (toolCalls (caught (applyParsed unsafe_proto ?before v))) \<noteq> {}" .
  have "populated (toolCalls (applyAll unsafe_proto (caught (applyParsed unsafe_proto ?before v)) ys)) \<noteq> {}"
  proof (rule applyAll_invariant[where P = "\<lambda>calls. populated calls \<noteq> {}"
        and Q = "\<lambda>tc. True"])
    show "populated (toolCalls (caught (applyParsed unsafe_proto ?before v))) \<noteq> {}"
      by (rule after)
    show "populated calls' \<noteq> {}"
      if "populated calls \<noteq> {}" and "toolStep unsafe_proto calls tc = Inr calls'" for calls tc calls'
      using that(2,1) by (rule toolStep_populated)
    show "\<forall>v \<in> set ys. \<forall>tc \<in> set (tool_deltas v). True" by simp
  qed
  then show ?thesis by (simp add: vs applyAll_def)
qed

lemma final_accumulator_applyAll:
  "final_accumulator unsafe_proto parse started stream =
     applyAll unsafe_proto (initial started) (parsed_values parse (stream_lines new_decoder stream))"
  by (simp add: final_accumulator_def readLoop_lines foldl_processLine)

lemma populated_Max:
  assumes "no_trailing_hole calls" and "populated calls \<noteq> {}"
  shows "length (elems calls) = Suc (Max (populated calls))"
proof -
  from assms(2) have ne: "elems calls \<noteq> []" by (auto simp: populated_def)
  with assms(1) have "last (elems calls) \<noteq> None" by (simp add: no_trailing_hole_def)
  with ne have "length (elems calls) - 1 \<in> populated calls"
    by (simp add: populated_def last_conv_nth)
  moreover have "finite (populated calls)" by (simp add: populated_def)
  moreover have "\<forall>i \<in> populated calls. i \<le> length (elems calls) - 1"
    by (auto simp: populated_def)
  ultimately have "Max (populated calls) = length (elems calls) - 1"
    by (meson Max_eqI)
  with ne show ?thesis by simp
qed

subsection \<open>Keys the array inherits\<close>

text \<open>
  A delta that does not start a tool call and names a method of the array as its
  index: line 198 throws, and the rest of the line is dropped with it.
\<close>

lemma key_of_name:
  "tool_key (JObj ((''index'', JStr ''push'') # ps)) = Inr (Name ''push'')"
  "tool_key (JObj ((''index'', JStr ''tool'') # ps)) = Inr (Name ''tool'')"
  "tool_key (JObj ((''index'', JStr ''__proto__'') # ps)) = Inr (Name ''__proto__'')"
  "tool_key (JObj ((''index'', JStr ''id'') # ps)) = Inr (Name ''id'')"
  by (simp_all add: tool_key_def or_else_def to_key_def key_of_string_def read_nat_def
      is_digit_def)

lemma toolStep_inherited_method:
  "toolStep unsafe_proto (toolCalls (initial started))
     (JObj [(''index'', JStr ''push''), (''function'', JObj [(''arguments'', JStr ''x'')])])
   = Inl TypeError"
  using key_of_name(1)
  by (simp add: toolStep_def tool_key_def Let_def initial_def inherited_def get_slot_def
      array_prototype_names_def)

lemma toolStep_unknown_name:
  "toolStep unsafe_proto (toolCalls (initial started))
     (JObj [(''index'', JStr ''tool''), (''function'', JObj [(''arguments'', JStr ''x'')])])
   = Inr (toolCalls (initial started))"
  using key_of_name(2)
  by (simp add: toolStep_def tool_key_def Let_def initial_def inherited_def get_slot_def
      array_prototype_names_def object_prototype_names_def)

lemma inherited_index_drops_line:
  \<open>ch_message (hd (doc_choices (collectStreamData unsafe_proto JSON_parse 1700000000123 1700000000456
      [''data: {"choices":[{"delta":{"tool_calls":[{"index":"push","function":{"arguments":"x"}},{"index":1,"id":"c","type":"function","function":{"name":"f"}}]},"finish_reason":"tool_calls"}]}'' @ [CHR 0x0A]])))
     = \<lparr>msg_role = ''assistant'', msg_content = JNull, msg_tool_calls = None\<rparr>
   \<and> ch_finish_reason (hd (doc_choices (collectStreamData unsafe_proto JSON_parse 1700000000123 1700000000456
      [''data: {"choices":[{"delta":{"tool_calls":[{"index":"push","function":{"arguments":"x"}},{"index":1,"id":"c","type":"function","function":{"name":"f"}}]},"finish_reason":"tool_calls"}]}'' @ [CHR 0x0A]])))
     = JStr ''stop''\<close>
proof -
  let ?stream = \<open>[''data: {"choices":[{"delta":{"tool_calls":[{"index":"push","function":{"arguments":"x"}},{"index":1,"id":"c","type":"function","function":{"name":"f"}}]},"finish_reason":"tool_calls"}]}'' @ [CHR 0x0A]]\<close>
  let ?push = \<open>JObj [(''index'', JStr ''push''), (''function'', JObj [(''arguments'', JStr ''x'')])]\<close>
  let ?start = \<open>JObj [(''index'', JNum 1), (''id'', JStr ''c''), (''type'', JStr ''function''),
        (''function'', JObj [(''name'', JStr ''f'')])]\<close>
  let ?v = \<open>JObj [(''choices'', JArr [JObj [(''delta'', JObj [(''tool_calls'', JArr [?push, ?start])]),
        (''finish_reason'', JStr ''tool_calls'')]])]\<close>
  have l: \<open>stream_lines new_decoder ?stream
     = [''data: {"choices":[{"delta":{"tool_calls":[{"index":"push","function":{"arguments":"x"}},{"index":1,"id":"c","type":"function","function":{"name":"f"}}]},"finish_reason":"tool_calls"}]}'', []]\<close>
    by (simp add: decode_eval)
  have p: \<open>parsed_values JSON_parse
       [''data: {"choices":[{"delta":{"tool_calls":[{"index":"push","function":{"arguments":"x"}},{"index":1,"id":"c","type":"function","function":{"name":"f"}}]},"finish_reason":"tool_calls"}]}'', []]
     = [?v]\<close>
    by (simp add: line_eval trim_eval json_eval)
  have "caught (applyParsed unsafe_proto (initial 1700000000123) ?v) = initial 1700000000123"
    by (simp add: applyParsed_def setHeader_def applyChoice_def addContent_def addToolCalls_def
        and_then_def caught_def Let_def greater_zero_def to_number_def to_primitive_def
        toolStep_inherited_method)
  then show ?thesis
    unfolding collect_applyAll l p applyAll_def foldl.simps
    by (simp add: document_def initial_def or_else_def Let_def)
qed

text \<open>
  A tool call started under \<^verbatim>\<open>__proto__\<close>. Where the runtime has the accessor, it becomes
  the prototype of the array, which stays empty; a later delta under \<^verbatim>\<open>__proto__\<close> finds
  it there and appends to it, and one under \<^verbatim>\<open>id\<close> reaches the \<^verbatim>\<open>id\<close> of the tool call,
  where line 198 throws. Where the runtime has no accessor, the tool call is stored
  under the name.
\<close>

lemma toolStep_prototype:
  "toolStep True (toolCalls (initial started))
     (JObj [(''index'', JStr ''__proto__''), (''id'', JStr ''c''), (''type'', JStr ''function''),
            (''function'', JObj [(''arguments'', JStr ''a'')])])
   = Inr \<lparr>elems = [], named = [],
          proto = Some \<lparr>p_call = \<lparr>tc_id = JStr ''c'', tc_type = JStr ''function'',
                                   tc_name = JStr [], tc_arguments = JStr ''a''\<rparr>,
                         p_id = Absent, p_type = Absent\<rparr>\<rparr>"
  using key_of_name(3)
  by (simp add: toolStep_def tool_key_def Let_def initial_def assign_slot_def or_else_def
      target_of_def)

lemma toolStep_prototype_continued:
  "toolStep True
     \<lparr>elems = [], named = [],
      proto = Some \<lparr>p_call = \<lparr>tc_id = JStr ''c'', tc_type = JStr ''function'',
                               tc_name = JStr [], tc_arguments = JStr ''a''\<rparr>,
                     p_id = Absent, p_type = Absent\<rparr>\<rparr>
     (JObj [(''index'', JStr ''__proto__''), (''function'', JObj [(''arguments'', JStr ''b'')])])
   = Inr \<lparr>elems = [], named = [],
          proto = Some \<lparr>p_call = \<lparr>tc_id = JStr ''c'', tc_type = JStr ''function'',
                                   tc_name = JStr [], tc_arguments = JStr ''ab''\<rparr>,
                         p_id = Absent, p_type = Absent\<rparr>\<rparr>"
  using key_of_name(3)
  by (simp add: toolStep_def tool_key_def Let_def get_slot_def update_entry_def js_add_strings)

lemma toolStep_prototype_id:
  "toolStep True
     \<lparr>elems = [], named = [],
      proto = Some \<lparr>p_call = \<lparr>tc_id = JStr ''c'', tc_type = JStr ''function'',
                               tc_name = JStr [], tc_arguments = JStr ''a''\<rparr>,
                     p_id = Absent, p_type = Absent\<rparr>\<rparr>
     (JObj [(''index'', JStr ''id''), (''function'', JObj [(''arguments'', JStr ''b'')])])
   = Inl TypeError"
  using key_of_name(4)
  by (simp add: toolStep_def tool_key_def Let_def get_slot_def inherited_def)

lemma toolStep_proto_name:
  "toolStep False (toolCalls (initial started))
     (JObj [(''index'', JStr ''__proto__''), (''id'', JStr ''c''), (''type'', JStr ''function''),
            (''function'', JObj [(''arguments'', JStr ''a'')])])
   = Inr \<lparr>elems = [],
          named = [(''__proto__'', \<lparr>tc_id = JStr ''c'', tc_type = JStr ''function'',
                                     tc_name = JStr [], tc_arguments = JStr ''a''\<rparr>)],
          proto = None\<rparr>"
  using key_of_name(3)
  by (simp add: toolStep_def tool_key_def Let_def initial_def assign_slot_def or_else_def)

subsection \<open>The runtime\<close>

text \<open>
  Whether the runtime has the accessor \<^verbatim>\<open>__proto__\<close> bears on a stream only through a
  tool-call delta whose index is that name.
\<close>

lemma toolStep_runtime:
  assumes "tool_key tc \<noteq> Inr (Name ''__proto__'')"
  shows "toolStep a calls tc = toolStep b calls tc"
proof (cases "tool_key tc")
  case (Inl e)
  then show ?thesis by (simp add: toolStep_def tool_key_def Let_def)
next
  case (Inr k)
  with assms have "k \<noteq> Name ''__proto__''" by simp
  with Inr show ?thesis
    by (simp add: toolStep_def tool_key_def Let_def get_slot_def assign_slot_def update_entry_def
        cong: slot.case_cong sum.case_cong if_cong)
qed

lemma forToolCalls_runtime:
  assumes "\<forall>tc \<in> set tcs. tool_key tc \<noteq> Inr (Name ''__proto__'')"
  shows "forToolCalls a calls tcs = forToolCalls b calls tcs"
  using assms
proof (induction tcs arbitrary: calls)
  case Nil
  then show ?case by simp
next
  case (Cons tc tcs)
  then have "toolStep a calls tc = toolStep b calls tc"
    by (simp add: toolStep_runtime)
  with Cons show ?case by (simp split: sum.splits)
qed

lemma applyParsed_runtime:
  assumes "\<forall>tc \<in> set (tool_deltas v). tool_key tc \<noteq> Inr (Name ''__proto__'')"
  shows "applyParsed a acc v = applyParsed b acc v"
proof -
  let ?ch = "get_index (get_prop v ''choices'') 0"
  have tools: "addToolCalls a acc1 ?ch = addToolCalls b acc1 ?ch" for acc1
  proof (cases "iterate (get_prop (get_prop ?ch ''delta'') ''tool_calls'')")
    case (Inl e)
    then show ?thesis
      by (simp add: addToolCalls_def Let_def cong: sum.case_cong if_cong)
  next
    case (Inr tcs)
    with assms have "forToolCalls a (toolCalls acc1) tcs = forToolCalls b (toolCalls acc1) tcs"
      by (intro forToolCalls_runtime) (simp add: tool_deltas_def)
    with Inr show ?thesis
      by (simp add: addToolCalls_def Let_def cong: sum.case_cong if_cong)
  qed
  show ?thesis
    by (simp add: applyParsed_def applyChoice_def Let_def tools cong: if_cong)
qed

lemma applyAll_runtime:
  assumes "\<forall>v \<in> set vs. \<forall>tc \<in> set (tool_deltas v). tool_key tc \<noteq> Inr (Name ''__proto__'')"
  shows "applyAll a acc vs = applyAll b acc vs"
  using assms
proof (induction vs arbitrary: acc)
  case Nil
  then show ?case by (simp add: applyAll_def)
next
  case (Cons v vs)
  then have "applyParsed a acc v = applyParsed b acc v"
    by (simp add: applyParsed_runtime)
  with Cons show ?case by (simp add: applyAll_def)
qed

lemma collectStreamData_runtime:
  assumes "\<forall>v \<in> set (parsed_values parse (stream_lines new_decoder stream)).
             \<forall>tc \<in> set (tool_deltas v). tool_key tc \<noteq> Inr (Name ''__proto__'')"
  shows "collectStreamData a parse started finished stream
           = collectStreamData b parse started finished stream"
  using applyAll_runtime[OF assms, of a "initial started" b] by (simp add: collect_applyAll)

subsection \<open>The handler\<close>

lemma truthy_token_of:
  "truthy (token_of hs) \<longleftrightarrow>
     carries_value hs ''authorization'' \<or> carries_value hs ''x-api-key''
       \<or> carries_value hs ''Authorization''"
  by (auto simp: token_of_def or_else_def carries_value_def)

lemma handleRequest_no_token:
  assumes "req_method request = ''POST''"
    and "sublist ''/chat/completions'' (req_pathname request)"
    and "parse (req_body request) = Some b" and "\<not> nullish b"
    and "\<not> truthy (token_of (req_headers request))"
  shows "handleRequest unsafe_proto parse fetch started finished request = (authError, [])"
  using assms by (simp add: handleRequest_def Let_def)

lemma handleRequest_token:
  assumes "req_method request = ''POST''"
    and "sublist ''/chat/completions'' (req_pathname request)"
    and "parse (req_body request) = Some b" and "\<not> nullish b"
    and "truthy (token_of (req_headers request))"
  shows "fst (handleRequest unsafe_proto parse fetch started finished request) \<noteq> authError"
  using assms
  by (simp add: handleRequest_def Let_def authError_def internalError_def
      split: sum.splits option.splits)

text \<open>
  A model named as a method every object has: the upstream body carries no model. A
  model named \<^verbatim>\<open>__proto__\<close> is written as \<^verbatim>\<open>{}\<close> where the runtime has the accessor, and
  passed on as it is where it has not.
\<close>

lemma mappedModel_examples:
  "mappedModel unsafe_proto (JStr ''claude-4.0'') = Inr (Model (JStr ''default-model''))"
  "mappedModel unsafe_proto (JStr ''gpt-4'') = Inr (Model (JStr ''gpt-4''))"
  "mappedModel unsafe_proto (JStr ''constructor'') = Inr Inherited_method"
  "mappedModel True (JStr ''__proto__'') = Inr Prototype_object"
  "mappedModel False (JStr ''__proto__'') = Inr (Model (JStr ''__proto__''))"
  by (simp_all add: mappedModel_def modelMapping_def object_prototype_names_def or_else_def)

lemma upstream_body_examples:
  "upstream_body (JObj [(''model'', JStr ''constructor'')]) [] Inherited_method
     = JObj [(''stream'', JBool True), (''messages'', JArr [])]"
  "upstream_body (JObj [(''model'', JStr ''__proto__'')]) [] Prototype_object
     = JObj [(''model'', JObj []), (''stream'', JBool True), (''messages'', JArr [])]"
  by (simp_all add: upstream_body_def written_def)

section \<open>The claims\<close>

text \<open>
  In the statements \<open>parse\<close> is \<^verbatim>\<open>JSON.parse\<close>, \<open>fetch\<close> the upstream call, \<open>started\<close> and
  \<open>finished\<close> the readings of the clock, and \<open>unsafe_proto\<close> tells whether the runtime has
  the accessor \<^verbatim>\<open>__proto__\<close>: a statement in which it is free holds on either runtime. The
  examples are evaluated on the runtime without the accessor, which is Deno as it
  starts by default; none of them has a tool-call delta under \<^verbatim>\<open>__proto__\<close>, so that the
  runtime is without effect on them (lemma \<open>collectStreamData_runtime\<close>).
\<close>

subsection \<open>The normalizer\<close>

text \<open>
  C2, as stated, fails: a message whose content is truthy but neither a string nor a
  sequence (here the number 5) is pushed with its content as it came.
\<close>

theorem normalizer_content_counterexample:
  "handleChatMessage [JObj [(''role'', JStr ''user''), (''content'', JNum 5)]]
     = Inr [systemMessage, JObj [(''role'', JStr ''user''), (''content'', JNum 5)]]
   \<and> \<not> valid_message (JObj [(''role'', JStr ''user''), (''content'', JNum 5)])"
  by (simp add: handleChatMessage_def fixMessage_def valid_message_def)

text \<open>
  C2, amended: when every message of the input has a content that is a string, a
  sequence or falsy (absent, \<^verbatim>\<open>null\<close>, empty), every message of the normalizer's output has a
  content that is a non-empty sequence of blocks, each of type \<^verbatim>\<open>"text"\<close> with a non-empty
  text equal to its own trimmed form. Messages with no usable content are not in the
  output, since such a message would not have a non-empty content.
\<close>

theorem normalizer_output_blocks:
  assumes "\<forall>m \<in> set messages. plain_content (get_prop m ''content'')"
    and "handleChatMessage messages = Inr out"
  shows "list_all valid_message out"
proof -
  from assms(2) obtain fixed where f: "fixedMessages messages = Inr fixed"
    and out: "out = fixed \<or> out = systemMessage # fixed"
    by (auto simp: handleChatMessage_def split: sum.splits if_splits)
  from fixedMessages_valid[OF _ f] assms(1) have "list_all valid_message fixed" by simp
  with out valid_systemMessage show ?thesis by auto
qed

theorem normalizer_output_blocks_witness:
  "list_all (\<lambda>m. plain_content (get_prop m ''content''))
     [JObj [(''role'', JStr ''user''), (''content'', JStr '' hi '')],
      JNull,
      JObj [(''role'', JStr ''assistant''), (''content'', JStr ''  '')],
      JObj [(''role'', JStr ''user''),
            (''content'', JArr [JObj [(''type'', JStr ''text''), (''text'', JStr '' x '')],
                                JObj [(''type'', JStr ''image'')], JNum 3])]]
   \<and> handleChatMessage
     [JObj [(''role'', JStr ''user''), (''content'', JStr '' hi '')],
      JNull,
      JObj [(''role'', JStr ''assistant''), (''content'', JStr ''  '')],
      JObj [(''role'', JStr ''user''),
            (''content'', JArr [JObj [(''type'', JStr ''text''), (''text'', JStr '' x '')],
                                JObj [(''type'', JStr ''image'')], JNum 3])]]
     = Inr [JObj [(''role'', JStr ''user''),
                  (''content'', JArr [JObj [(''type'', JStr ''text''), (''text'', JStr ''hi'')]])],
            JObj [(''role'', JStr ''user''),
                  (''content'', JArr [JObj [(''type'', JStr ''text''), (''text'', JStr ''x'')]])]]
   \<and> list_all valid_message
         [JObj [(''role'', JStr ''user''),
                (''content'', JArr [JObj [(''type'', JStr ''text''), (''text'', JStr ''hi'')]])],
          JObj [(''role'', JStr ''user''),
                (''content'', JArr [JObj [(''type'', JStr ''text''), (''text'', JStr ''x'')]])]]"
  (is "list_all ?P ?ms \<and> handleChatMessage ?ms = Inr ?out \<and> list_all valid_message ?out")
proof -
  have h1: "\<forall>m \<in> set ?ms. plain_content (get_prop m ''content'')"
    by simp
  have h2: "handleChatMessage ?ms = Inr ?out"
    by (simp add: handleChatMessage_def fixMessage_def validContent_def valid_item_def
        trim_item_def trim_eval)
  from normalizer_output_blocks[OF h1 h2] h1 h2 show ?thesis
    by (simp add: list_all_iff)
qed

text \<open>
  C3: the claim is that the normalizer never raises. The code does, at
  \<^verbatim>\<open>item.text.trim()\<close> (line 272), when an element of a content sequence has type \<^verbatim>\<open>"text"\<close>
  and a truthy \<^verbatim>\<open>text\<close> that is no string: the string branch tests
  \<^verbatim>\<open>typeof message.content === 'string'\<close> before it trims, the filter does not. Where
  every such \<^verbatim>\<open>text\<close> is a string the normalizer returns (lemma
  \<open>handleChatMessage_total\<close>).
\<close>

theorem normalizer_throws_on_text_number:
  "handleChatMessage
     [JObj [(''role'', JStr ''user''),
            (''content'', JArr [JObj [(''type'', JStr ''text''), (''text'', JNum 123)]])]]
   = Inl TypeError"
  by (simp add: handleChatMessage_def fixMessage_def validContent_def valid_item_def)

text \<open>
  C6: when exactly one message is left after the filtering and repair and its role is
  not \<^verbatim>\<open>"system"\<close>, the output is the synthetic system message, whose only content block
  has the text \<^verbatim>\<open>You are a helpful assistant.\<close>, followed by that message; in every other
  case the output is the list of the messages left, nothing prepended (and an error of
  the filtering is the error of the normalizer).
\<close>

theorem default_system_message:
  "(fixedMessages messages = Inr [m] \<and> get_prop m ''role'' \<noteq> JStr ''system''
      \<longrightarrow> handleChatMessage messages = Inr [systemMessage, m])
   \<and> (fixedMessages messages = Inr fixed
        \<and> \<not> (length fixed = 1 \<and> get_prop (hd fixed) ''role'' \<noteq> JStr ''system'')
      \<longrightarrow> handleChatMessage messages = Inr fixed)
   \<and> (fixedMessages messages = Inl e \<longrightarrow> handleChatMessage messages = Inl e)
   \<and> get_prop systemMessage ''role'' = JStr ''system''
   \<and> get_prop systemMessage ''content''
       = JArr [JObj [(''type'', JStr ''text''), (''text'', JStr ''You are a helpful assistant.'')]]"
  by (cases fixed) (auto simp: handleChatMessage_def systemMessage_def)

theorem default_system_message_witness:
  "fixedMessages [JObj [(''role'', JStr ''user''), (''content'', JStr ''Hello'')], JObj []]
     = Inr [JObj [(''role'', JStr ''user''),
                  (''content'', JArr [JObj [(''type'', JStr ''text''), (''text'', JStr ''Hello'')]])]]
   \<and> handleChatMessage [JObj [(''role'', JStr ''user''), (''content'', JStr ''Hello'')], JObj []]
     = Inr [systemMessage,
            JObj [(''role'', JStr ''user''),
                  (''content'', JArr [JObj [(''type'', JStr ''text''), (''text'', JStr ''Hello'')]])]]
   \<and> fixedMessages [JObj [(''role'', JStr ''system''), (''content'', JStr ''Be brief.'')]]
     = Inr [JObj [(''role'', JStr ''system''),
                  (''content'', JArr [JObj [(''type'', JStr ''text''), (''text'', JStr ''Be brief.'')]])]]
   \<and> handleChatMessage [JObj [(''role'', JStr ''system''), (''content'', JStr ''Be brief.'')]]
     = Inr [JObj [(''role'', JStr ''system''),
                  (''content'', JArr [JObj [(''type'', JStr ''text''), (''text'', JStr ''Be brief.'')]])]]"
  (is "fixedMessages ?in1 = Inr [?m1] \<and> handleChatMessage ?in1 = Inr [systemMessage, ?m1]
       \<and> fixedMessages ?in2 = Inr [?m2] \<and> handleChatMessage ?in2 = Inr [?m2]")
proof -
  have f1: "fixedMessages ?in1 = Inr [?m1]"
    by (simp add: fixMessage_def trim_eval)
  have r1: "get_prop ?m1 ''role'' \<noteq> JStr ''system''"
    by simp
  have f2: "fixedMessages ?in2 = Inr [?m2]"
    by (simp add: fixMessage_def trim_eval)
  have r2: "\<not> (length [?m2] = 1 \<and> get_prop (hd [?m2]) ''role'' \<noteq> JStr ''system'')"
    by simp
  from default_system_message[of ?in1 ?m1] f1 r1
  have "handleChatMessage ?in1 = Inr [systemMessage, ?m1]" by blast
  moreover from default_system_message[of ?in2 _ "[?m2]"] f2 r2
  have "handleChatMessage ?in2 = Inr [?m2]" by blast
  ultimately show ?thesis using f1 f2 by simp
qed

subsection \<open>The reducer\<close>

text \<open>
  C1: the claim is that the document does not depend on how the bytes of the stream
  are cut into chunks. The code splits each chunk into lines by itself and keeps no
  unfinished line for the next chunk (the decoder's stream mode keeps unfinished UTF-8
  sequences only). The same bytes, first in one chunk, then cut inside the
  \<^verbatim>\<open>data: \<close> line: the delta is lost, both halves being dropped (the first does not parse,
  the second does not start with \<^verbatim>\<open>data: \<close>). The chunking is without effect when every
  chunk ends with a line feed (lemma \<open>aligned_chunks\<close>).
\<close>

theorem chunk_split_loses_delta:
  \<open>msg_content (ch_message (hd (doc_choices
       (collectStreamData False JSON_parse 1700000000123 1700000000456
          [''data: {"choices":[{"delta":{"content":"Hi"}}]}'' @ [CHR 0x0A]]))))
     = JStr ''Hi''
   \<and> msg_content (ch_message (hd (doc_choices
       (collectStreamData False JSON_parse 1700000000123 1700000000456
          [''data: {"choices":[{"delta":{"con'', ''tent":"Hi"}}]}'' @ [CHR 0x0A]]))))
     = JNull
   \<and> concat [''data: {"choices":[{"delta":{"con'', ''tent":"Hi"}}]}'' @ [CHR 0x0A]]
     = concat [''data: {"choices":[{"delta":{"content":"Hi"}}]}'' @ [CHR 0x0A]]\<close>
proof -
  have l1: \<open>stream_lines new_decoder [''data: {"choices":[{"delta":{"content":"Hi"}}]}'' @ [CHR 0x0A]]
      = [''data: {"choices":[{"delta":{"content":"Hi"}}]}'', []]\<close>
    by (simp add: decode_eval)
  have p1: \<open>parsed_values JSON_parse [''data: {"choices":[{"delta":{"content":"Hi"}}]}'', []]
      = [JObj [(''choices'', JArr [JObj [(''delta'', JObj [(''content'', JStr ''Hi'')])]])]]\<close>
    by (simp add: line_eval trim_eval json_eval)
  have l2: \<open>stream_lines new_decoder
        [''data: {"choices":[{"delta":{"con'', ''tent":"Hi"}}]}'' @ [CHR 0x0A]]
      = [''data: {"choices":[{"delta":{"con'', ''tent":"Hi"}}]}'', []]\<close>
    by (simp add: decode_eval)
  have p2: \<open>parsed_values JSON_parse
        [''data: {"choices":[{"delta":{"con'', ''tent":"Hi"}}]}'', []] = []\<close>
    by (simp add: line_eval trim_eval json_eval)
  show ?thesis
    unfolding collect_applyAll l1 p1 l2 p2
    by (simp add: apply_eval document_def)
qed

text \<open>
  C4: a delta that starts a tool call at index \<open>n\<close> with the arguments \<open>a\<close>, followed by
  continuation deltas at the same index with the fragments \<open>frags\<close>, one delta a line,
  leaves at index \<open>n\<close> the arguments \<open>a\<close> followed by the fragments in their order: the
  string that a single starting delta with these total arguments leaves.
\<close>

theorem tool_call_arguments_concatenate:
  assumes "is_start start" and "tool_key start = Inr (Index n)"
    and "or_else (get_prop (get_prop start ''function'') ''arguments'') (JStr '''') = JStr a"
    and "list_all2 (continuation n) conts frags"
    and "is_start single" and "tool_key single = Inr (Index n)"
    and "get_prop (get_prop single ''function'') ''arguments'' = JStr (a @ concat frags)"
  shows "arguments_at (toolCalls (applyAll unsafe_proto acc (map tool_call_delta (start # conts)))) n
           = Some (JStr (a @ concat frags))
       \<and> arguments_at (toolCalls (applyAll unsafe_proto acc [tool_call_delta single])) n
           = Some (JStr (a @ concat frags))"
proof -
  let ?acc1 = "caught (applyParsed unsafe_proto acc (tool_call_delta start))"
  have "arguments_at (toolCalls ?acc1) n = Some (JStr a)"
    unfolding toolCalls_applyParsed_delta toolStep_start[OF assms(1,2)] arguments_at_def
    by (simp only: sum.case read_put_same slot.case tool_call.simps assms(3))
  from arguments_after_continuations[OF assms(4) this]
  have 1: "arguments_at (toolCalls (applyAll unsafe_proto acc (map tool_call_delta (start # conts)))) n
           = Some (JStr (a @ concat frags))"
    by (simp add: applyAll_def)
  have "or_else (get_prop (get_prop single ''function'') ''arguments'') (JStr '''')
          = JStr (a @ concat frags)"
    by (simp add: assms(7) or_else_def)
  then have 2: "arguments_at (toolCalls (applyAll unsafe_proto acc [tool_call_delta single])) n
           = Some (JStr (a @ concat frags))"
    unfolding applyAll_def foldl.simps toolCalls_applyParsed_delta toolStep_start[OF assms(5,6)]
      arguments_at_def
    by (simp only: sum.case read_put_same slot.case tool_call.simps)
  from 1 2 show ?thesis by simp
qed

theorem tool_call_arguments_concatenate_witness:
  \<open>arguments_at (toolCalls (applyAll False (initial 0) (map tool_call_delta
       [JObj [(''index'', JNum 0), (''id'', JStr ''call_1''), (''type'', JStr ''function''),
              (''function'', JObj [(''name'', JStr ''f''), (''arguments'', JStr ''{"a":'')])],
        JObj [(''index'', JNum 0), (''function'', JObj [(''arguments'', JStr ''1'')])],
        JObj [(''index'', JNum 0), (''function'', JObj [(''arguments'', JStr ''}'')])]]))) 0
     = Some (JStr ''{"a":1}'')
   \<and> arguments_at (toolCalls (applyAll False (initial 0) [tool_call_delta
       (JObj [(''index'', JNum 0), (''id'', JStr ''call_1''), (''type'', JStr ''function''),
              (''function'', JObj [(''name'', JStr ''f''), (''arguments'', JStr ''{"a":1}'')])])])) 0
     = Some (JStr ''{"a":1}'')\<close>
proof -
  let ?start = \<open>JObj [(''index'', JNum 0), (''id'', JStr ''call_1''), (''type'', JStr ''function''),
              (''function'', JObj [(''name'', JStr ''f''), (''arguments'', JStr ''{"a":'')])]\<close>
  let ?c1 = "JObj [(''index'', JNum 0), (''function'', JObj [(''arguments'', JStr ''1'')])]"
  let ?c2 = "JObj [(''index'', JNum 0), (''function'', JObj [(''arguments'', JStr ''}'')])]"
  let ?single = \<open>JObj [(''index'', JNum 0), (''id'', JStr ''call_1''), (''type'', JStr ''function''),
              (''function'', JObj [(''name'', JStr ''f''), (''arguments'', JStr ''{"a":1}'')])]\<close>
  have k0: "to_key (JNum 0) = Inr (Index 0)"
    by (simp add: to_key_def key_of_string_def read_nat_def is_digit_def show_eval)
  have h1: "is_start ?start" by (simp add: is_start_def)
  have h2: "tool_key ?start = Inr (Index 0)" by (simp add: tool_key_def or_else_def k0)
  have h3: \<open>or_else (get_prop (get_prop ?start ''function'') ''arguments'') (JStr [])
              = JStr ''{"a":''\<close>
    by (simp add: or_else_def)
  have h4: "list_all2 (continuation 0) [?c1, ?c2] [''1'', ''}'']"
    by (simp add: continuation_def is_start_def tool_key_def or_else_def k0)
  have h5: "is_start ?single" by (simp add: is_start_def)
  have h6: "tool_key ?single = Inr (Index 0)" by (simp add: tool_key_def or_else_def k0)
  have h7: \<open>get_prop (get_prop ?single ''function'') ''arguments''
              = JStr (''{"a":'' @ concat [''1'', ''}''])\<close>
    by simp
  from tool_call_arguments_concatenate[OF h1 h2 h3 h4 h5 h6 h7, of False "initial 0"]
  show ?thesis by simp
qed

text \<open>
  C5: when the only \<^verbatim>\<open>data: \<close> lines the reducer meets are \<^verbatim>\<open>data: [DONE]\<close>, the document has
  the content \<^verbatim>\<open>null\<close>, no \<^verbatim>\<open>tool_calls\<close> on its message, the finish reason \<^verbatim>\<open>"stop"\<close> and
  the id \<^verbatim>\<open>chatcmpl-\<close> followed by the clock's milliseconds when the document is built (and
  the defaults of the other fields).
\<close>

theorem done_only:
  assumes "\<forall>l \<in> set (stream_lines new_decoder stream).
             prefix ''data: '' l \<longrightarrow> trim (drop 6 l) = ''[DONE]''"
  shows "collectStreamData unsafe_proto parse started finished stream =
     \<lparr>doc_id = JStr (''chatcmpl-'' @ show_int finished),
      doc_object = ''chat.completion'',
      doc_created = JNum (started div 1000),
      doc_model = JStr ''gpt-3.5-turbo'',
      doc_choices =
        [\<lparr>ch_index = 0,
          ch_message = \<lparr>msg_role = ''assistant'', msg_content = JNull, msg_tool_calls = None\<rparr>,
          ch_finish_reason = JStr ''stop''\<rparr>],
      doc_usage = JObj [(''prompt_tokens'', JNum 0), (''completion_tokens'', JNum 0),
                        (''total_tokens'', JNum 0)]\<rparr>"
proof -
  have "parsed_values parse (stream_lines new_decoder stream) = []"
    using assms
    by (auto simp: parsed_values_def map_filter_def filter_empty_conv line_value_def)
  then show ?thesis
    by (simp add: collect_applyAll applyAll_def document_def initial_def or_else_def)
qed

theorem done_only_witness:
  \<open>list_all (\<lambda>l. \<not> prefix ''data: '' l \<or> trim (drop 6 l) = ''[DONE]'')
     (stream_lines new_decoder [''data: [DONE]'' @ [CHR 0x0A, CHR 0x0A]])
   \<and> collectStreamData False JSON_parse 1700000000123 1700000000456
        [''data: [DONE]'' @ [CHR 0x0A, CHR 0x0A]] =
     \<lparr>doc_id = JStr ''chatcmpl-1700000000456'',
      doc_object = ''chat.completion'',
      doc_created = JNum 1700000000,
      doc_model = JStr ''gpt-3.5-turbo'',
      doc_choices =
        [\<lparr>ch_index = 0,
          ch_message = \<lparr>msg_role = ''assistant'', msg_content = JNull, msg_tool_calls = None\<rparr>,
          ch_finish_reason = JStr ''stop''\<rparr>],
      doc_usage = JObj [(''prompt_tokens'', JNum 0), (''completion_tokens'', JNum 0),
                        (''total_tokens'', JNum 0)]\<rparr>\<close>
proof -
  have l: "stream_lines new_decoder [''data: [DONE]'' @ [CHR 0x0A, CHR 0x0A]]
             = [''data: [DONE]'', [], []]"
    by (simp add: decode_eval)
  have t: "trim ''[DONE]'' = ''[DONE]''"
    by (simp add: trim_eval)
  have h: "\<forall>l \<in> set (stream_lines new_decoder [''data: [DONE]'' @ [CHR 0x0A, CHR 0x0A]]).
             prefix ''data: '' l \<longrightarrow> trim (drop 6 l) = ''[DONE]''"
    unfolding l by (simp add: t)
  have s: "show_int 1700000000456 = ''1700000000456''"
    by (simp add: show_eval)
  from done_only[OF h, of False JSON_parse 1700000000123 1700000000456] show ?thesis
    unfolding l by (simp add: t s)
qed

text \<open>
  C7: a \<^verbatim>\<open>data: \<close> line whose remainder \<^verbatim>\<open>JSON.parse\<close> rejects changes nothing: the
  accumulator after the line is the accumulator before it. For two streams whose
  lines, as the reducer meets them, differ by that one line, wherever it stands, the
  documents are equal, all of the document and with it the accumulated content; so it
  is when the bytes of the line and its line feed are taken out of a chunk in which
  the line stands between two line feeds. The fold goes on after the line, and no
  error leaves the reducer.
\<close>

theorem malformed_line_ignored:
  "(prefix ''data: '' bad \<and> parse (trim (drop 6 bad)) = None
      \<longrightarrow> processLine unsafe_proto parse acc bad = acc)
   \<and> (stream_lines new_decoder stream = before @ [bad] @ after
        \<and> stream_lines new_decoder stream' = before @ after
        \<and> prefix ''data: '' bad \<and> parse (trim (drop 6 bad)) = None
      \<longrightarrow> collectStreamData unsafe_proto parse started finished stream
            = collectStreamData unsafe_proto parse started finished stream')
   \<and> (CHR 0x0A \<notin> set bytes
        \<and> prefix ''data: '' (line_text bytes) \<and> parse (trim (drop 6 (line_text bytes))) = None
      \<longrightarrow> collectStreamData unsafe_proto parse started finished
              (earlier @ [pre @ CHR 0x0A # bytes @ CHR 0x0A # post] @ later)
            = collectStreamData unsafe_proto parse started finished
              (earlier @ [pre @ CHR 0x0A # post] @ later))"
proof (intro conjI impI)
  assume "prefix ''data: '' bad \<and> parse (trim (drop 6 bad)) = None"
  then show "processLine unsafe_proto parse acc bad = acc"
    by (simp add: processLine_def Let_def)
next
  assume a: "stream_lines new_decoder stream = before @ [bad] @ after
        \<and> stream_lines new_decoder stream' = before @ after
        \<and> prefix ''data: '' bad \<and> parse (trim (drop 6 bad)) = None"
  then have "line_value parse bad = None"
    by (simp add: line_value_def)
  then have "parsed_values parse (before @ [bad] @ after) = parsed_values parse (before @ after)"
    by (simp add: parsed_values_def map_filter_def)
  with a show "collectStreamData unsafe_proto parse started finished stream
            = collectStreamData unsafe_proto parse started finished stream'"
    by (simp add: collect_applyAll)
next
  assume "CHR 0x0A \<notin> set bytes
        \<and> prefix ''data: '' (line_text bytes) \<and> parse (trim (drop 6 (line_text bytes))) = None"
  then show "collectStreamData unsafe_proto parse started finished
              (earlier @ [pre @ CHR 0x0A # bytes @ CHR 0x0A # post] @ later)
            = collectStreamData unsafe_proto parse started finished
              (earlier @ [pre @ CHR 0x0A # post] @ later)"
    using malformed_line_in_chunk by blast
qed

theorem malformed_line_ignored_witness:
  \<open>CHR 0x0A \<notin> set ''data: {"choices":[{"delta":{"content":''
   \<and> line_text ''data: {"choices":[{"delta":{"content":''
       = ''data: {"choices":[{"delta":{"content":''
   \<and> JSON_parse (trim (drop 6 ''data: {"choices":[{"delta":{"content":'')) = None
   \<and> collectStreamData False JSON_parse 1700000000123 1700000000456
       ([] @ [''data: {"choices":[{"delta":{"content":"Hel"}}]}''
               @ CHR 0x0A # ''data: {"choices":[{"delta":{"content":''
               @ CHR 0x0A # ''data: {"choices":[{"delta":{"content":"lo"}}]}'' @ [CHR 0x0A]] @ [])
     = collectStreamData False JSON_parse 1700000000123 1700000000456
       ([] @ [''data: {"choices":[{"delta":{"content":"Hel"}}]}''
               @ CHR 0x0A # ''data: {"choices":[{"delta":{"content":"lo"}}]}'' @ [CHR 0x0A]] @ [])
   \<and> msg_content (ch_message (hd (doc_choices
       (collectStreamData False JSON_parse 1700000000123 1700000000456
         [''data: {"choices":[{"delta":{"content":"Hel"}}]}''
               @ CHR 0x0A # ''data: {"choices":[{"delta":{"content":"lo"}}]}'' @ [CHR 0x0A]]))))
     = JStr ''Hello''\<close>
  (is \<open>?A \<and> ?T \<and> ?N \<and> ?E \<and> ?C\<close>)
proof -
  have a: ?A by simp
  have t: ?T by (rule line_text_ascii) simp_all
  have n: ?N by (simp add: trim_eval json_eval)
  have p: \<open>prefix ''data: '' (line_text ''data: {"choices":[{"delta":{"content":'')\<close>
    unfolding t by simp
  have n': \<open>JSON_parse (trim (drop 6 (line_text ''data: {"choices":[{"delta":{"content":''))) = None\<close>
    unfolding t by (rule n)
  from malformed_line_ignored[
      where bytes = \<open>''data: {"choices":[{"delta":{"content":''\<close> and parse = JSON_parse
        and earlier = "[]" and later = "[]"
        and pre = \<open>''data: {"choices":[{"delta":{"content":"Hel"}}]}''\<close>
        and post = \<open>''data: {"choices":[{"delta":{"content":"lo"}}]}'' @ [CHR 0x0A]\<close>
        and started = 1700000000123 and finished = 1700000000456]
    a p n'
  have e: ?E by blast
  have l: \<open>stream_lines new_decoder
         [''data: {"choices":[{"delta":{"content":"Hel"}}]}''
               @ CHR 0x0A # ''data: {"choices":[{"delta":{"content":"lo"}}]}'' @ [CHR 0x0A]]
      = [''data: {"choices":[{"delta":{"content":"Hel"}}]}'',
         ''data: {"choices":[{"delta":{"content":"lo"}}]}'', []]\<close>
    by (simp add: decode_eval)
  have v: \<open>parsed_values JSON_parse
        [''data: {"choices":[{"delta":{"content":"Hel"}}]}'',
         ''data: {"choices":[{"delta":{"content":"lo"}}]}'', []]
      = [JObj [(''choices'', JArr [JObj [(''delta'', JObj [(''content'', JStr ''Hel'')])]])],
         JObj [(''choices'', JArr [JObj [(''delta'', JObj [(''content'', JStr ''lo'')])]])]]\<close>
    by (simp add: line_eval trim_eval json_eval)
  have c: ?C
    unfolding collect_applyAll l v
    by (simp add: apply_eval document_def)
  from a t n e c show ?thesis by blast
qed

text \<open>
  C9: the \<^verbatim>\<open>created\<close> of the document is the last truthy \<^verbatim>\<open>created\<close> among the values parsed
  from the stream's lines; when there is none, it is the clock's reading at the start
  of the reducer, in whole seconds.
\<close>

theorem created_of_document:
  "doc_created (collectStreamData unsafe_proto parse started finished stream) =
     (let cs = created_values (parsed_values parse (stream_lines new_decoder stream))
      in if cs = [] then JNum (started div 1000) else last cs)"
  by (simp add: collect_applyAll document_def Let_def created_applyAll initial_def)

theorem created_of_document_witness:
  \<open>doc_created (collectStreamData False JSON_parse 1700000000123 1700000000456
      [''data: {"created":17,"id":"a"}'' @ [CHR 0x0A] @ ''data: null'' @ [CHR 0x0A],
       ''data: {"created":42}'' @ [CHR 0x0A] @ ''data: {"created":0}'' @ [CHR 0x0A]
         @ ''data: {"created":'' @ [CHR 0x0A] @ ''data: [DONE]'' @ [CHR 0x0A]])
     = JNum 42
   \<and> doc_created (collectStreamData False JSON_parse 1700000000123 1700000000456
      [''data: {"id":"a"}'' @ [CHR 0x0A]])
     = JNum 1700000000\<close>
proof -
  have l1: \<open>stream_lines new_decoder
      [''data: {"created":17,"id":"a"}'' @ [CHR 0x0A] @ ''data: null'' @ [CHR 0x0A],
       ''data: {"created":42}'' @ [CHR 0x0A] @ ''data: {"created":0}'' @ [CHR 0x0A]
         @ ''data: {"created":'' @ [CHR 0x0A] @ ''data: [DONE]'' @ [CHR 0x0A]]
     = [''data: {"created":17,"id":"a"}'', ''data: null'', [],
        ''data: {"created":42}'', ''data: {"created":0}'', ''data: {"created":'',
        ''data: [DONE]'', []]\<close>
    by (simp add: decode_eval)
  have p1: \<open>parsed_values JSON_parse
       [''data: {"created":17,"id":"a"}'', ''data: null'', [],
        ''data: {"created":42}'', ''data: {"created":0}'', ''data: {"created":'',
        ''data: [DONE]'', []]
     = [JObj [(''created'', JNum 17), (''id'', JStr ''a'')], JNull,
        JObj [(''created'', JNum 42)], JObj [(''created'', JNum 0)]]\<close>
    by (simp add: line_eval trim_eval json_eval)
  have l2: \<open>stream_lines new_decoder [''data: {"id":"a"}'' @ [CHR 0x0A]]
     = [''data: {"id":"a"}'', []]\<close>
    by (simp add: decode_eval)
  have p2: \<open>parsed_values JSON_parse [''data: {"id":"a"}'', []] = [JObj [(''id'', JStr ''a'')]]\<close>
    by (simp add: line_eval trim_eval json_eval)
  show ?thesis
    unfolding created_of_document l1 p1 l2 p2
    by (simp add: created_values_def)
qed

text \<open>
  C10: when the deltas that start a tool call only use indices at or above some
  \<open>k > 0\<close>, and some line of the stream opens a tool call (the first of its tool-call
  deltas starts one under an array index, and its content delta, if it has one, can be
  appended), the message of the document carries the array as its \<^verbatim>\<open>tool_calls\<close>: the
  array has an entry, its length is one more than its greatest populated position, and
  the positions below \<open>k\<close> are there as holes. Both hypotheses are on the input; that the
  array has an entry is derived.
\<close>

theorem sparse_tool_calls:
  assumes "0 < k"
    and "\<forall>v \<in> set (parsed_values parse (stream_lines new_decoder stream)).
           \<forall>tc \<in> set (tool_deltas v).
             is_start tc \<longrightarrow> (\<forall>n. tool_key tc = Inr (Index n) \<longrightarrow> k \<le> n)"
    and "\<exists>v \<in> set (parsed_values parse (stream_lines new_decoder stream)). opens_tool_call v"
  shows "msg_tool_calls (ch_message (hd (doc_choices
             (collectStreamData unsafe_proto parse started finished stream))))
           = Some (toolCalls (final_accumulator unsafe_proto parse started stream))
       \<and> populated (toolCalls (final_accumulator unsafe_proto parse started stream)) \<noteq> {}
       \<and> length (elems (toolCalls (final_accumulator unsafe_proto parse started stream)))
           = Suc (Max (populated (toolCalls (final_accumulator unsafe_proto parse started stream))))
       \<and> k < length (elems (toolCalls (final_accumulator unsafe_proto parse started stream)))
       \<and> (\<forall>i<k. elems (toolCalls (final_accumulator unsafe_proto parse started stream)) ! i = None)"
proof -
  let ?calls = "toolCalls (final_accumulator unsafe_proto parse started stream)"
  let ?vs = "parsed_values parse (stream_lines new_decoder stream)"
  have calls: "?calls = toolCalls (applyAll unsafe_proto (initial started) ?vs)"
    by (simp add: final_accumulator_applyAll)
  have nth: "no_trailing_hole ?calls"
    unfolding calls
  proof (rule applyAll_invariant[where Q = "\<lambda>tc. True" and P = no_trailing_hole])
    show "no_trailing_hole (toolCalls (initial started))"
      by (simp add: no_trailing_hole_def initial_def)
    show "no_trailing_hole calls'"
      if "no_trailing_hole calls" and "toolStep unsafe_proto calls tc = Inr calls'" for calls tc calls'
      using that(2,1) by (rule toolStep_no_trailing_hole)
    show "\<forall>v \<in> set ?vs. \<forall>tc \<in> set (tool_deltas v). True"
      by simp
  qed
  have hb: "holes_below k ?calls"
    unfolding calls
  proof (rule applyAll_invariant[where P = "holes_below k" and
          Q = "\<lambda>tc. is_start tc \<longrightarrow> (\<forall>n. tool_key tc = Inr (Index n) \<longrightarrow> k \<le> n)"])
    show "holes_below k (toolCalls (initial started))"
      by (simp add: holes_below_def initial_def)
    show "holes_below k calls'"
      if "holes_below k calls"
        and "is_start tc \<longrightarrow> (\<forall>n. tool_key tc = Inr (Index n) \<longrightarrow> k \<le> n)"
        and "toolStep unsafe_proto calls tc = Inr calls'" for calls tc calls'
      using that(3,1,2) by (rule toolStep_holes_below)
    show "\<forall>v \<in> set ?vs. \<forall>tc \<in> set (tool_deltas v).
            is_start tc \<longrightarrow> (\<forall>n. tool_key tc = Inr (Index n) \<longrightarrow> k \<le> n)"
      by (rule assms(2))
  qed
  from assms(3) obtain v where "v \<in> set ?vs" and "opens_tool_call v"
    by blast
  then have pop: "populated ?calls \<noteq> {}"
    unfolding calls by (rule opening_line_populated)
  then obtain j where j: "j < length (elems ?calls)" "elems ?calls ! j \<noteq> None"
    by (auto simp: populated_def)
  with hb have "k \<le> j" by (auto simp: holes_below_def not_less[symmetric])
  with j have len: "k < length (elems ?calls)" by simp
  have doc: "msg_tool_calls (ch_message (hd (doc_choices
             (collectStreamData unsafe_proto parse started finished stream)))) = Some ?calls"
    using len by (auto simp: collectStreamData_def document_def final_accumulator_def Let_def)
  from doc pop populated_Max[OF nth pop] len hb show ?thesis
    by (auto simp: holes_below_def)
qed

theorem sparse_tool_calls_witness:
  \<open>list_ex opens_tool_call (parsed_values JSON_parse (stream_lines new_decoder
      [''data: {"choices":[{"delta":{"tool_calls":[{"index":2,"id":"c1","type":"function","function":{"name":"f","arguments":"{}"}}]}}]}'' @ [CHR 0x0A]]))
   \<and> toolCalls (final_accumulator False JSON_parse 1700000000123
      [''data: {"choices":[{"delta":{"tool_calls":[{"index":2,"id":"c1","type":"function","function":{"name":"f","arguments":"{}"}}]}}]}'' @ [CHR 0x0A]])
     = \<lparr>elems = [None, None,
                 Some \<lparr>tc_id = JStr ''c1'', tc_type = JStr ''function'', tc_name = JStr ''f'',
                       tc_arguments = JStr ''{}''\<rparr>],
        named = [], proto = None\<rparr>
   \<and> msg_tool_calls (ch_message (hd (doc_choices
       (collectStreamData False JSON_parse 1700000000123 1700000000456
      [''data: {"choices":[{"delta":{"tool_calls":[{"index":2,"id":"c1","type":"function","function":{"name":"f","arguments":"{}"}}]}}]}'' @ [CHR 0x0A]]))))
     = Some \<lparr>elems = [None, None,
                 Some \<lparr>tc_id = JStr ''c1'', tc_type = JStr ''function'', tc_name = JStr ''f'',
                       tc_arguments = JStr ''{}''\<rparr>],
        named = [], proto = None\<rparr>
   \<and> Max (populated (toolCalls (final_accumulator False JSON_parse 1700000000123
      [''data: {"choices":[{"delta":{"tool_calls":[{"index":2,"id":"c1","type":"function","function":{"name":"f","arguments":"{}"}}]}}]}'' @ [CHR 0x0A]]))) = 2\<close>
proof -
  let ?stream = \<open>[''data: {"choices":[{"delta":{"tool_calls":[{"index":2,"id":"c1","type":"function","function":{"name":"f","arguments":"{}"}}]}}]}'' @ [CHR 0x0A]]\<close>
  let ?tc = \<open>JObj [(''index'', JNum 2), (''id'', JStr ''c1''), (''type'', JStr ''function''),
        (''function'', JObj [(''name'', JStr ''f''), (''arguments'', JStr ''{}'')])]\<close>
  have l: \<open>stream_lines new_decoder ?stream
     = [''data: {"choices":[{"delta":{"tool_calls":[{"index":2,"id":"c1","type":"function","function":{"name":"f","arguments":"{}"}}]}}]}'', []]\<close>
    by (simp add: decode_eval)
  have p: \<open>parsed_values JSON_parse
       [''data: {"choices":[{"delta":{"tool_calls":[{"index":2,"id":"c1","type":"function","function":{"name":"f","arguments":"{}"}}]}}]}'', []]
     = [tool_call_delta ?tc]\<close>
    by (simp add: line_eval trim_eval json_eval tool_call_delta_def)
  have k2: "tool_key ?tc = Inr (Index 2)"
    by (simp add: tool_key_def or_else_def to_key_def key_of_string_def read_nat_def
        is_digit_def show_eval)
  have s: "is_start ?tc" by (simp add: is_start_def)
  have calls: "toolCalls (final_accumulator False JSON_parse 1700000000123 ?stream)
     = \<lparr>elems = [None, None,
                 Some \<lparr>tc_id = JStr ''c1'', tc_type = JStr ''function'', tc_name = JStr ''f'',
                       tc_arguments = JStr ''{}''\<rparr>],
        named = [], proto = None\<rparr>"
    unfolding final_accumulator_applyAll l p applyAll_def foldl.simps toolCalls_applyParsed_delta
      toolStep_start[OF s k2]
    by (simp add: initial_def or_else_def numeral_2_eq_2)
  have h1: "0 < (2::nat)" by simp
  have h2: "\<forall>v \<in> set (parsed_values JSON_parse (stream_lines new_decoder ?stream)).
           \<forall>tc \<in> set (tool_deltas v).
             is_start tc \<longrightarrow> (\<forall>n. tool_key tc = Inr (Index n) \<longrightarrow> 2 \<le> n)"
    unfolding l p by (simp add: tool_deltas_def tool_call_delta_def k2)
  have o: "opens_tool_call (tool_call_delta ?tc)"
    unfolding opens_tool_call_def array_start_def
    by (simp add: tool_deltas_def tool_call_delta_def to_primitive_def s k2)
  then have h3: "\<exists>v \<in> set (parsed_values JSON_parse (stream_lines new_decoder ?stream)).
           opens_tool_call v"
    unfolding l p by simp
  from sparse_tool_calls[OF h1 h2 h3, of False 1700000000123 1700000000456] calls h3 show ?thesis
    by (simp add: list_ex_iff)
qed

subsection \<open>The handler\<close>

text \<open>
  C8, as stated, fails twice. A credential header that is present with an empty value
  does not pass the check: \<^verbatim>\<open>get\<close> answers the empty string, which is falsy, and the
  response is the 401. And a request without credentials is not always answered with
  401: the body is parsed first (line 27), and a body that is not JSON is answered with
  500.
\<close>

theorem credential_check_counterexample:
  \<open>headers_get [(''authorization'', '''')] ''authorization'' = JStr ''''
   \<and> handleRequest False JSON_parse (\<lambda>call. Inl TypeError) 0 0
       \<lparr>req_method = ''POST'', req_pathname = ''/v1/chat/completions'',
        req_headers = [(''authorization'', '''')], req_body = ''{"messages":[]}''\<rparr>
     = (authError, [])
   \<and> handleRequest False JSON_parse (\<lambda>call. Inl TypeError) 0 0
       \<lparr>req_method = ''POST'', req_pathname = ''/v1/chat/completions'',
        req_headers = [], req_body = ''not json''\<rparr>
     = (internalError SyntaxError, [])\<close>
proof -
  have b1: \<open>JSON_parse ''{"messages":[]}'' = Some (JObj [(''messages'', JArr [])])\<close>
    by (simp add: json_eval)
  have b2: \<open>JSON_parse ''not json'' = None\<close>
    by (simp add: json_eval)
  have p: "sublist ''/chat/completions'' ''/v1/chat/completions''"
    by (simp add: sublist_Cons_right)
  show ?thesis
    by (simp add: handleRequest_def b1 b2 p Let_def token_of_def or_else_def headers_get_def
        lower_char_def)
qed

text \<open>
  C8, amended: for every POST request whose path contains \<^verbatim>\<open>/chat/completions\<close> and whose
  body parses as JSON to a value other than \<^verbatim>\<open>null\<close>: when none of the three header names
  carries a non-empty value, the handler answers with status 401 and the envelope
  \<^verbatim>\<open>{ error: { message, type }, type: "error" }\<close> and makes no upstream call; when one of
  them carries a non-empty value, whatever it is, the answer is not that of the
  credential check.
\<close>

theorem credential_check:
  assumes "req_method request = ''POST''"
    and "sublist ''/chat/completions'' (req_pathname request)"
    and "parse (req_body request) = Some b" and "\<not> nullish b"
  shows "(\<not> carries_value (req_headers request) ''authorization''
          \<and> \<not> carries_value (req_headers request) ''x-api-key''
          \<and> \<not> carries_value (req_headers request) ''Authorization''
        \<longrightarrow> handleRequest unsafe_proto parse fetch started finished request = (authError, []))
       \<and> (carries_value (req_headers request) ''authorization''
          \<or> carries_value (req_headers request) ''x-api-key''
          \<or> carries_value (req_headers request) ''Authorization''
        \<longrightarrow> fst (handleRequest unsafe_proto parse fetch started finished request) \<noteq> authError)
       \<and> authError =
           \<lparr>resp_status = 401, resp_headers = [(''Content-Type'', ''application/json'')],
            resp_body = Envelope (Literal ''Authorization header is required'') ''auth_error''\<rparr>"
proof -
  have 1: "handleRequest unsafe_proto parse fetch started finished request = (authError, [])"
    if "\<not> truthy (token_of (req_headers request))"
    using assms that by (rule handleRequest_no_token)
  have 2: "fst (handleRequest unsafe_proto parse fetch started finished request) \<noteq> authError"
    if "truthy (token_of (req_headers request))"
    using assms that by (rule handleRequest_token)
  from 1 2 truthy_token_of[of "req_headers request"] show ?thesis
    by (auto simp: authError_def json_headers_def)
qed

theorem credential_check_witness:
  \<open>carries_value [(''x-api-key'', ''k'')] ''x-api-key''
   \<and> fst (handleRequest False JSON_parse
        (\<lambda>call. Inr \<lparr>res_status = 200, res_body = Some [''data: [DONE]'' @ [CHR 0x0A]]\<rparr>)
        1700000000123 1700000000456
        \<lparr>req_method = ''POST'', req_pathname = ''/v1/chat/completions'',
         req_headers = [(''x-api-key'', ''k'')], req_body = ''{"messages":[]}''\<rparr>) \<noteq> authError
   \<and> handleRequest False JSON_parse
        (\<lambda>call. Inr \<lparr>res_status = 200, res_body = Some [''data: [DONE]'' @ [CHR 0x0A]]\<rparr>)
        1700000000123 1700000000456
        \<lparr>req_method = ''POST'', req_pathname = ''/v1/chat/completions'',
         req_headers = [(''content-type'', ''application/json'')],
         req_body = ''{"messages":[]}''\<rparr> = (authError, [])\<close>
proof -
  let ?fetch = \<open>\<lambda>call :: upstream_request.
      (Inr \<lparr>res_status = 200, res_body = Some [''data: [DONE]'' @ [CHR 0x0A]]\<rparr>
        :: error + upstream_response)\<close>
  let ?r1 = \<open>\<lparr>req_method = ''POST'', req_pathname = ''/v1/chat/completions'',
         req_headers = [(''x-api-key'', ''k'')], req_body = ''{"messages":[]}''\<rparr>\<close>
  let ?r2 = \<open>\<lparr>req_method = ''POST'', req_pathname = ''/v1/chat/completions'',
         req_headers = [(''content-type'', ''application/json'')],
         req_body = ''{"messages":[]}''\<rparr>\<close>
  have b: \<open>JSON_parse ''{"messages":[]}'' = Some (JObj [(''messages'', JArr [])])\<close>
    by (simp add: json_eval)
  have p: "sublist ''/chat/completions'' ''/v1/chat/completions''"
    by (simp add: sublist_Cons_right)
  have c1: "carries_value (req_headers ?r1) ''x-api-key''"
    by (simp add: carries_value_def headers_get_def lower_char_def)
  have c2: "\<not> carries_value (req_headers ?r2) ''authorization''
          \<and> \<not> carries_value (req_headers ?r2) ''x-api-key''
          \<and> \<not> carries_value (req_headers ?r2) ''Authorization''"
    by (simp add: carries_value_def headers_get_def lower_char_def)
  from credential_check[of ?r1 JSON_parse _ False ?fetch 1700000000123 1700000000456] b p c1
  have 1: "fst (handleRequest False JSON_parse ?fetch 1700000000123 1700000000456 ?r1) \<noteq> authError"
    by simp
  from credential_check[of ?r2 JSON_parse _ False ?fetch 1700000000123 1700000000456] b p c2
  have 2: "handleRequest False JSON_parse ?fetch 1700000000123 1700000000456 ?r2 = (authError, [])"
    by simp
  from 1 2 c1 show ?thesis by simp
qed

end
